theory Spec2Isabelle
  imports Complex_Main "HOL-Library.Multiset" "HOL-Library.Sublist"
begin

section \<open>Data model of presidentialElection.cpp\<close>

text \<open>
  The program reads a list of vote records and answers five queries over it. The
  embedding below follows \<^verbatim>\<open>src/presidentialElection.cpp\<close> function by function.

  Conventions of the embedding:
  \<^item> A C++ \<^verbatim>\<open>int\<close> is a 32-bit two's-complement integer. The program adds vote counts
    with \<^verbatim>\<open>+=\<close>; the model performs every such addition with \<open>int_add\<close>, which wraps
    around modulo \<open>2 ^ 32\<close>, as the compiled program does. What a property owes to the
    absence of overflow is stated as a hypothesis on the vote counts (\<open>fitsInt\<close>). Where a
    result depends on the width of \<^verbatim>\<open>int\<close> (the conversion to \<^verbatim>\<open>double\<close>), the bounds
    \<open>INT_MIN\<close> and \<open>INT_MAX\<close> appear as hypotheses.
  \<^item> A \<^verbatim>\<open>std::string\<close> is a \<open>string\<close> (a list of bytes).
  \<^item> A \<^verbatim>\<open>double\<close> is modelled by the rational number it denotes, and every
    floating-point operation rounds its exact result to 53 significant bits, ties to
    even (see \<open>fl\<close>).
  \<^item> \<^verbatim>\<open>std::sort\<close> is modelled twice: by its contract (see \<open>std_sort\<close>), for the
    properties of every result the C++ standard allows, and by the algorithm of GNU
    libstdc++ (see \<open>libstdcxx_sort\<close>), for the result of a run on a given input.
  \<^item> The functions print their results; the model returns what is printed, without the
    column formatting.
\<close>

text \<open>\<^verbatim>\<open>const string STATES[]\<close> and \<^verbatim>\<open>NUM_STATES\<close> (lines 18-32).\<close>

definition STATES :: "string list" where
  "STATES =
    [''ALABAMA'', ''ALASKA'', ''ARIZONA'', ''ARKANSAS'', ''CALIFORNIA'',
     ''COLORADO'', ''CONNECTICUT'', ''DELAWARE'', ''FLORIDA'', ''GEORGIA'',
     ''HAWAII'', ''IDAHO'', ''ILLINOIS'', ''INDIANA'', ''IOWA'',
     ''KANSAS'', ''KENTUCKY'', ''LOUISIANA'', ''MAINE'', ''MARYLAND'',
     ''MASSACHUSETTS'', ''MICHIGAN'', ''MINNESOTA'', ''MISSISSIPPI'', ''MISSOURI'',
     ''MONTANA'', ''NEBRASKA'', ''NEVADA'', ''NEW HAMPSHIRE'', ''NEW JERSEY'',
     ''NEW MEXICO'', ''NEW YORK'', ''NORTH CAROLINA'', ''NORTH DAKOTA'', ''OHIO'',
     ''OKLAHOMA'', ''OREGON'', ''PENNSYLVANIA'', ''RHODE ISLAND'', ''SOUTH CAROLINA'',
     ''SOUTH DAKOTA'', ''TENNESSEE'', ''TEXAS'', ''UTAH'', ''VERMONT'',
     ''VIRGINIA'', ''WASHINGTON'', ''WASHINGTON DC'', ''WEST VIRGINIA'', ''WISCONSIN'',
     ''WYOMING'']"

definition NUM_STATES :: nat where
  "NUM_STATES = 51"

text \<open>
  \<^verbatim>\<open>class Votes\<close> (lines 35-55): the fields are private and read through the getters,
  whose names the record's fields take.
\<close>

record Votes =
  getState :: string
  getCounty :: string
  getCandidate :: string
  getParty :: string
  getVoteCount :: int

text \<open>\<^verbatim>\<open>class CandidateSummary\<close> (lines 58-69) and its \<^verbatim>\<open>operator<\<close>, which orders by
  more votes first.\<close>

record CandidateSummary =
  name :: string
  party :: string
  totalVotes :: int

definition operator_less :: "CandidateSummary \<Rightarrow> CandidateSummary \<Rightarrow> bool" where
  "operator_less this other \<longleftrightarrow> totalVotes this > totalVotes other"

definition INT_MAX :: int where
  "INT_MAX = 2147483647"

definition INT_MIN :: int where
  "INT_MIN = - 2147483648"

text \<open>
  Addition of two \<^verbatim>\<open>int\<close>s. The compiled program adds in 32-bit two's complement: a sum
  that leaves the range from \<open>INT_MIN\<close> to \<open>INT_MAX\<close> comes back reduced modulo \<open>2\<^sup>3\<^sup>2\<close>
  into that range (the C++ standard itself leaves the overflow undefined). \<open>int_wrap\<close>
  is the reduction, \<open>int_add\<close> the addition of the program.
\<close>

definition int_wrap :: "int \<Rightarrow> int" where
  "int_wrap x = (x + 2147483648) mod 4294967296 - 2147483648"

definition int_add :: "int \<Rightarrow> int \<Rightarrow> int" where
  "int_add a b = int_wrap (a + b)"

section \<open>Library functions the program calls\<close>

subsection \<open>Strings\<close>

text \<open>
  \<^verbatim>\<open>::toupper\<close> in the C locale: the bytes \<^verbatim>\<open>'a'\<close>..\<^verbatim>\<open>'z'\<close> (97..122) move down by 32, every
  other byte is unchanged. \<^verbatim>\<open>toUpper\<close> (lines 149-152) applies it to every byte.
\<close>

definition toupper :: "char \<Rightarrow> char" where
  "toupper c =
     (if 97 \<le> (of_char c :: nat) \<and> (of_char c :: nat) \<le> 122
      then char_of ((of_char c :: nat) - 32) else c)"

definition toUpper :: "string \<Rightarrow> string" where
  "toUpper str = map toupper str"

text \<open>
  \<^verbatim>\<open>std::string::find(needle)\<close>: the first position at which \<open>needle\<close> occurs in the
  string, \<open>None\<close> for \<^verbatim>\<open>string::npos\<close>. The empty needle is found at position 0 of every
  string, the empty string included.
\<close>

fun str_find :: "string \<Rightarrow> string \<Rightarrow> nat option" where
  "str_find [] needle = (if needle = [] then Some 0 else None)"
| "str_find (c # cs) needle =
     (if prefix needle (c # cs) then Some 0 else map_option Suc (str_find cs needle))"

subsection \<open>Sorting\<close>

text \<open>
  \<^verbatim>\<open>std::sort(first, last)\<close> with the comparison \<open>cmp\<close> (here \<^verbatim>\<open>operator<\<close>). The standard
  promises that the range afterwards holds the same elements and is sorted with respect
  to \<open>cmp\<close>: no element is \<open>cmp\<close>-less than an earlier one. It does not promise that
  equivalent elements keep their order (that is \<^verbatim>\<open>std::stable_sort\<close>). The model is
  therefore a relation between the range before and every range the call may leave.
\<close>

definition std_sort :: "('a \<Rightarrow> 'a \<Rightarrow> bool) \<Rightarrow> 'a list \<Rightarrow> 'a list \<Rightarrow> bool" where
  "std_sort cmp xs ys \<longleftrightarrow> mset ys = mset xs \<and> sorted_wrt (\<lambda>a b. \<not> cmp b a) ys"

text \<open>
  The standard leaves the algorithm open; what a run does with equivalent elements is
  decided by the implementation. The definitions below follow \<^verbatim>\<open>std::sort\<close> of GNU
  libstdc++ (\<^verbatim>\<open>bits/stl_algo.h\<close>), function by function, on a vector addressed by index:
  an iterator is a position, a range is \<open>[first, last_it)\<close>. The result is \<open>None\<close> when the
  recursion budget of the introsort loop runs out on a range of more than 16 elements,
  where the library falls back to heap sort, which is not modelled.

  \<^verbatim>\<open>std::iter_swap\<close>, and \<^verbatim>\<open>__move_median_to_first(result, a, b, c)\<close>, which swaps the
  median of the elements at \<open>a\<close>, \<open>b\<close>, \<open>c\<close> into \<open>result\<close>.
\<close>

definition iter_swap :: "'a list \<Rightarrow> nat \<Rightarrow> nat \<Rightarrow> 'a list" where
  "iter_swap xs i j = xs[i := xs ! j, j := xs ! i]"

definition move_median_to_first ::
  "('a \<Rightarrow> 'a \<Rightarrow> bool) \<Rightarrow> 'a list \<Rightarrow> nat \<Rightarrow> nat \<Rightarrow> nat \<Rightarrow> nat \<Rightarrow> 'a list" where
  "move_median_to_first cmp xs result a b c =
     (if cmp (xs ! a) (xs ! b) then
        (if cmp (xs ! b) (xs ! c) then iter_swap xs result b
         else if cmp (xs ! a) (xs ! c) then iter_swap xs result c
         else iter_swap xs result a)
      else if cmp (xs ! a) (xs ! c) then iter_swap xs result a
      else if cmp (xs ! b) (xs ! c) then iter_swap xs result c
      else iter_swap xs result b)"

text \<open>
  The two inner loops of \<^verbatim>\<open>__unguarded_partition\<close>:
  \<^verbatim>\<open>while (comp(first, pivot)) ++first\<close> and \<^verbatim>\<open>while (comp(pivot, last)) --last\<close>. The library
  does not test for the ends of the range, because the pivot is a median of three
  elements of it, which stops both loops when \<open>cmp\<close> is a strict weak ordering. The model
  stops at the ends of the vector as well, so that it is a total function.
\<close>

function scan_up :: "('a \<Rightarrow> 'a \<Rightarrow> bool) \<Rightarrow> 'a list \<Rightarrow> nat \<Rightarrow> nat \<Rightarrow> nat" where
  "scan_up cmp xs pivot first =
     (if first < length xs \<and> cmp (xs ! first) (xs ! pivot)
      then scan_up cmp xs pivot (Suc first) else first)"
  by pat_completeness auto
termination
  by (relation "measure (\<lambda>(cmp, xs, pivot, first). length xs - first)") auto

function scan_down :: "('a \<Rightarrow> 'a \<Rightarrow> bool) \<Rightarrow> 'a list \<Rightarrow> nat \<Rightarrow> nat \<Rightarrow> nat" where
  "scan_down cmp xs pivot last_it =
     (if 0 < last_it \<and> cmp (xs ! pivot) (xs ! last_it)
      then scan_down cmp xs pivot (last_it - 1) else last_it)"
  by pat_completeness auto
termination
  by (relation "measure (\<lambda>(cmp, xs, pivot, last_it). last_it)") auto

declare scan_up.simps [simp del] scan_down.simps [simp del]

text \<open>
  \<^verbatim>\<open>__unguarded_partition(first, last, pivot)\<close>: scan up, step \<open>last\<close> down once and scan
  down, return \<open>first\<close> when the two have met, otherwise swap the two elements, step
  \<open>first\<close> up and repeat. The result is the vector and the cut.
\<close>

function unguarded_partition ::
  "('a \<Rightarrow> 'a \<Rightarrow> bool) \<Rightarrow> 'a list \<Rightarrow> nat \<Rightarrow> nat \<Rightarrow> nat \<Rightarrow> 'a list \<times> nat" where
  "unguarded_partition cmp xs first last_it pivot =
     (if \<not> scan_up cmp xs pivot first < scan_down cmp xs pivot (last_it - 1)
      then (xs, scan_up cmp xs pivot first)
      else unguarded_partition cmp
             (iter_swap xs (scan_up cmp xs pivot first) (scan_down cmp xs pivot (last_it - 1)))
             (Suc (scan_up cmp xs pivot first)) (scan_down cmp xs pivot (last_it - 1)) pivot)"
  by pat_completeness auto
termination
proof (relation "measure (\<lambda>(cmp, xs, first, last_it, pivot). last_it - first)")
  show "wf (measure (\<lambda>(cmp :: 'a \<Rightarrow> 'a \<Rightarrow> bool, xs :: 'a list, first, last_it, pivot :: nat).
              last_it - first))"
    by simp
next
  fix cmp :: "'a \<Rightarrow> 'a \<Rightarrow> bool" and xs :: "'a list" and first last_it pivot :: nat
  assume "\<not> \<not> scan_up cmp xs pivot first < scan_down cmp xs pivot (last_it - 1)"
  then have lt: "scan_up cmp xs pivot first < scan_down cmp xs pivot (last_it - 1)"
    by simp
  have up: "f \<le> scan_up c ys p f" for c :: "'a \<Rightarrow> 'a \<Rightarrow> bool" and ys p f
  proof (induction c ys p f rule: scan_up.induct)
    case (1 c ys p f)
    show ?case
    proof (cases "f < length ys \<and> c (ys ! f) (ys ! p)")
      case True
      then have "Suc f \<le> scan_up c ys p (Suc f)" using 1 by simp
      then show ?thesis using True by (subst scan_up.simps) simp
    next
      case False
      then show ?thesis by (subst scan_up.simps) auto
    qed
  qed
  have down: "scan_down c ys p l \<le> l" for c :: "'a \<Rightarrow> 'a \<Rightarrow> bool" and ys p l
  proof (induction c ys p l rule: scan_down.induct)
    case (1 c ys p l)
    show ?case
    proof (cases "0 < l \<and> c (ys ! p) (ys ! l)")
      case True
      then have "scan_down c ys p (l - 1) \<le> l - 1" using 1 by simp
      then show ?thesis using True by (subst scan_down.simps) simp
    next
      case False
      then show ?thesis by (subst scan_down.simps) auto
    qed
  qed
  have "first \<le> scan_up cmp xs pivot first" by (rule up)
  moreover have "scan_down cmp xs pivot (last_it - 1) \<le> last_it - 1" by (rule down)
  ultimately show "((cmp, iter_swap xs (scan_up cmp xs pivot first)
             (scan_down cmp xs pivot (last_it - 1)),
          Suc (scan_up cmp xs pivot first), scan_down cmp xs pivot (last_it - 1), pivot),
         (cmp, xs, first, last_it, pivot))
        \<in> measure (\<lambda>(cmp, xs, first, last_it, pivot). last_it - first)"
    using lt by simp
qed

declare unguarded_partition.simps [simp del]

text \<open>\<^verbatim>\<open>__unguarded_partition_pivot\<close>: the median of the second, the middle and the last
  element goes to the front and is the pivot of the partition of the rest.\<close>

definition unguarded_partition_pivot ::
  "('a \<Rightarrow> 'a \<Rightarrow> bool) \<Rightarrow> 'a list \<Rightarrow> nat \<Rightarrow> nat \<Rightarrow> 'a list \<times> nat" where
  "unguarded_partition_pivot cmp xs first last_it =
     (let mid = first + (last_it - first) div 2
      in unguarded_partition cmp
           (move_median_to_first cmp xs first (first + 1) mid (last_it - 1))
           (first + 1) last_it first)"

text \<open>
  \<^verbatim>\<open>__introsort_loop(first, last, depth_limit)\<close>: while the range has more than
  \<^verbatim>\<open>_S_threshold = 16\<close> elements, partition it, recurse into the upper part and go on with
  the lower part. With \<open>depth_limit = 0\<close> the library sorts the range with
  \<^verbatim>\<open>__partial_sort\<close> (heap sort); the model returns \<open>None\<close> there.
\<close>

fun introsort_loop ::
  "('a \<Rightarrow> 'a \<Rightarrow> bool) \<Rightarrow> 'a list \<Rightarrow> nat \<Rightarrow> nat \<Rightarrow> nat \<Rightarrow> 'a list option" where
  "introsort_loop cmp xs first last_it 0 = (if last_it - first > 16 then None else Some xs)"
| "introsort_loop cmp xs first last_it (Suc depth_limit) =
     (if last_it - first > 16 then
        (case unguarded_partition_pivot cmp xs first last_it of
           (ys, cut_it) \<Rightarrow>
             (case introsort_loop cmp ys cut_it last_it depth_limit of
                None \<Rightarrow> None
              | Some zs \<Rightarrow> introsort_loop cmp zs first cut_it depth_limit))
      else Some xs)"

text \<open>
  \<^verbatim>\<open>__unguarded_linear_insert(last)\<close> moves the element \<open>val\<close> taken from position \<open>last\<close>
  down past every element it is less than. The library relies on a smaller element
  further down; the model stops at the front of the vector as well.
\<close>

function unguarded_linear_insert ::
  "('a \<Rightarrow> 'a \<Rightarrow> bool) \<Rightarrow> 'a \<Rightarrow> 'a list \<Rightarrow> nat \<Rightarrow> 'a list" where
  "unguarded_linear_insert cmp val xs last_it =
     (if 0 < last_it \<and> cmp val (xs ! (last_it - 1))
      then unguarded_linear_insert cmp val (xs[last_it := xs ! (last_it - 1)]) (last_it - 1)
      else xs[last_it := val])"
  by pat_completeness auto
termination
  by (relation "measure (\<lambda>(cmp, val, xs, last_it). last_it)") auto

declare unguarded_linear_insert.simps [simp del]

text \<open>\<^verbatim>\<open>val = *i; std::move_backward(first, i, i + 1); *first = val\<close>: the element at \<open>i\<close>
  goes to \<open>first\<close>, the elements of \<open>[first, i)\<close> move up by one.\<close>

definition move_backward :: "'a list \<Rightarrow> nat \<Rightarrow> nat \<Rightarrow> 'a list" where
  "move_backward xs first i =
     take first xs @ [xs ! i] @ take (i - first) (drop first xs) @ drop (Suc i) xs"

text \<open>\<^verbatim>\<open>__insertion_sort(first, last)\<close>: the loop from position \<open>i\<close> on, and the function.\<close>

function insertion_sort_from ::
  "('a \<Rightarrow> 'a \<Rightarrow> bool) \<Rightarrow> 'a list \<Rightarrow> nat \<Rightarrow> nat \<Rightarrow> nat \<Rightarrow> 'a list" where
  "insertion_sort_from cmp xs first i last_it =
     (if i < last_it then
        insertion_sort_from cmp
          (if cmp (xs ! i) (xs ! first) then move_backward xs first i
           else unguarded_linear_insert cmp (xs ! i) xs i)
          first (Suc i) last_it
      else xs)"
  by pat_completeness auto
termination
  by (relation "measure (\<lambda>(cmp, xs, first, i, last_it). last_it - i)") auto

declare insertion_sort_from.simps [simp del]

definition insertion_sort ::
  "('a \<Rightarrow> 'a \<Rightarrow> bool) \<Rightarrow> 'a list \<Rightarrow> nat \<Rightarrow> nat \<Rightarrow> 'a list" where
  "insertion_sort cmp xs first last_it =
     (if first = last_it then xs else insertion_sort_from cmp xs first (first + 1) last_it)"

text \<open>\<^verbatim>\<open>__unguarded_insertion_sort(first, last)\<close>, and \<^verbatim>\<open>__final_insertion_sort\<close>, which
  sorts the first 16 elements with the guarded loop and inserts the others.\<close>

function unguarded_insertion_sort ::
  "('a \<Rightarrow> 'a \<Rightarrow> bool) \<Rightarrow> 'a list \<Rightarrow> nat \<Rightarrow> nat \<Rightarrow> 'a list" where
  "unguarded_insertion_sort cmp xs i last_it =
     (if i < last_it
      then unguarded_insertion_sort cmp (unguarded_linear_insert cmp (xs ! i) xs i)
             (Suc i) last_it
      else xs)"
  by pat_completeness auto
termination
  by (relation "measure (\<lambda>(cmp, xs, i, last_it). last_it - i)") auto

declare unguarded_insertion_sort.simps [simp del]

definition final_insertion_sort ::
  "('a \<Rightarrow> 'a \<Rightarrow> bool) \<Rightarrow> 'a list \<Rightarrow> nat \<Rightarrow> nat \<Rightarrow> 'a list" where
  "final_insertion_sort cmp xs first last_it =
     (if last_it - first > 16
      then unguarded_insertion_sort cmp (insertion_sort cmp xs first (first + 16))
             (first + 16) last_it
      else insertion_sort cmp xs first last_it)"

text \<open>\<^verbatim>\<open>std::__lg(n)\<close>, the position of the highest set bit, and \<^verbatim>\<open>std::__sort\<close>: the
  introsort loop with the budget \<^verbatim>\<open>__lg(last - first) * 2\<close>, then the final insertion
  sort.\<close>

fun lg :: "nat \<Rightarrow> nat" where
  "lg n = (if n < 2 then 0 else Suc (lg (n div 2)))"

declare lg.simps [simp del]

definition libstdcxx_sort :: "('a \<Rightarrow> 'a \<Rightarrow> bool) \<Rightarrow> 'a list \<Rightarrow> 'a list option" where
  "libstdcxx_sort cmp xs =
     (if xs = [] then Some xs
      else map_option (\<lambda>ys. final_insertion_sort cmp ys 0 (length ys))
             (introsort_loop cmp xs 0 (length xs) (lg (length xs) * 2)))"

subsection \<open>Double-precision arithmetic\<close>

text \<open>
  A finite \<^verbatim>\<open>double\<close> is a rational number. \<open>ilog2 a\<close> is the binary exponent of a
  positive rational \<open>a\<close>: the integer \<open>e\<close> with \<open>2\<^sup>e \<le> a < 2\<^sup>e\<^sup>+\<^sup>1\<close> (lemma
  \<open>ilog2_bounds\<close>), computed from the number of binary digits (\<open>bit_length\<close>) of an
  integer next to \<open>a\<close> or to \<open>1 / a\<close>. \<open>fl x\<close> rounds \<open>x\<close> to the nearest number with a
  53-bit significand, ties to the even significand, as IEEE 754 binary64 does in its
  default rounding mode for every result in the normal range. The values the program
  computes (quotients of \<^verbatim>\<open>int\<close>s, times 100) are zero or lie in that range, so neither
  overflow to infinity nor gradual underflow is modelled. The program divides only by
  the constant 150000.0 and by a total it has tested to be positive.
\<close>

type_synonym double = rat

function bit_length :: "int \<Rightarrow> int" where
  "bit_length n = (if n \<le> 0 then 0 else bit_length (n div 2) + 1)"
  by pat_completeness auto
termination
  by (relation "measure nat") auto

definition ilog2 :: "rat \<Rightarrow> int" where
  "ilog2 a =
     (if 1 \<le> a then bit_length \<lfloor>a\<rfloor> - 1
      else - bit_length (\<lceil>1 / a\<rceil> - 1))"

definition round_even :: "rat \<Rightarrow> int" where
  "round_even y =
     (let f = \<lfloor>y\<rfloor>; r = y - of_int f
      in if r < 1 / 2 then f
         else if 1 / 2 < r then f + 1
         else if even f then f else f + 1)"

definition fl :: "rat \<Rightarrow> double" where
  "fl x =
     (if x = 0 then 0
      else sgn x * (of_int (round_even (\<bar>x\<bar> * power_int 2 (52 - ilog2 \<bar>x\<bar>)))
                    * power_int 2 (ilog2 \<bar>x\<bar> - 52)))"

definition double_of_int :: "int \<Rightarrow> double" where
  "double_of_int i = fl (of_int i)"

definition dmul :: "double \<Rightarrow> double \<Rightarrow> double" where
  "dmul x y = fl (x * y)"

definition ddiv :: "double \<Rightarrow> double \<Rightarrow> double" where
  "ddiv x y = fl (x / y)"

text \<open>
  \<^verbatim>\<open>round\<close> of \<^verbatim>\<open><cmath>\<close>: the nearest integer, halfway cases away from zero. Its result
  is assigned to an \<^verbatim>\<open>int\<close>, which keeps the value when it is in range.
\<close>

definition c_round :: "double \<Rightarrow> int" where
  "c_round y = (if 0 \<le> y then \<lfloor>y + 1 / 2\<rfloor> else - \<lfloor>- y + 1 / 2\<rfloor>)"

section \<open>Data overview and national results\<close>

text \<open>\<^verbatim>\<open>showDataOverview\<close> (lines 177-185) prints the number of records and the sum of
  their vote counts.\<close>

definition showDataOverview :: "Votes list \<Rightarrow> nat \<times> int" where
  "showDataOverview votes =
     (length votes, foldl (\<lambda>totalVotes vote. int_add totalVotes (getVoteCount vote)) 0 votes)"

text \<open>
  The body of the outer loop of \<^verbatim>\<open>getCandidateSummaries\<close> (lines 159-170): the first
  summary with the vote's candidate name gets the votes added; when there is none, a new
  summary with the vote's candidate and party is appended.
\<close>

fun addVote :: "CandidateSummary list \<Rightarrow> Votes \<Rightarrow> CandidateSummary list" where
  "addVote [] vote =
     [\<lparr>name = getCandidate vote, party = getParty vote, totalVotes = getVoteCount vote\<rparr>]"
| "addVote (summary # rest) vote =
     (if name summary = getCandidate vote
      then summary\<lparr>totalVotes := int_add (totalVotes summary) (getVoteCount vote)\<rparr> # rest
      else summary # addVote rest vote)"

text \<open>The vector \<^verbatim>\<open>summaries\<close> when the loop over the votes ends (line 171).\<close>

definition candidateTotals :: "Votes list \<Rightarrow> CandidateSummary list" where
  "candidateTotals votes = foldl addVote [] votes"

text \<open>\<^verbatim>\<open>getCandidateSummaries\<close> (lines 155-174): \<open>summaries\<close> is a vector the function may
  return. \<^verbatim>\<open>showNationalResults\<close> (lines 188-196) prints it entry by entry.\<close>

definition getCandidateSummaries :: "Votes list \<Rightarrow> CandidateSummary list \<Rightarrow> bool" where
  "getCandidateSummaries votes summaries \<longleftrightarrow>
     std_sort operator_less (candidateTotals votes) summaries"

definition showNationalResults :: "Votes list \<Rightarrow> CandidateSummary list \<Rightarrow> bool" where
  "showNationalResults votes summaries \<longleftrightarrow> getCandidateSummaries votes summaries"

section \<open>State results\<close>

text \<open>
  \<^verbatim>\<open>showStateResults\<close> (lines 199-229) has its own copy of the grouping loop, guarded by
  the comparison of the record's state with the upper-cased input (line 207). The
  record's state itself is compared as stored.
\<close>

fun addStateVote :: "CandidateSummary list \<Rightarrow> Votes \<Rightarrow> CandidateSummary list" where
  "addStateVote [] vote =
     [\<lparr>name = getCandidate vote, party = getParty vote, totalVotes = getVoteCount vote\<rparr>]"
| "addStateVote (summary # rest) vote =
     (if name summary = getCandidate vote
      then summary\<lparr>totalVotes := int_add (totalVotes summary) (getVoteCount vote)\<rparr> # rest
      else summary # addStateVote rest vote)"

definition stateTotals :: "Votes list \<Rightarrow> string \<Rightarrow> CandidateSummary list" where
  "stateTotals votes state =
     foldl (\<lambda>stateSummaries vote.
              if getState vote = state then addStateVote stateSummaries vote
              else stateSummaries) [] votes"

text \<open>The vector \<^verbatim>\<open>stateSummaries\<close> after line 222, for the line the user entered.\<close>

definition showStateResults :: "Votes list \<Rightarrow> string \<Rightarrow> CandidateSummary list \<Rightarrow> bool" where
  "showStateResults votes stateInput stateSummaries \<longleftrightarrow>
     std_sort operator_less (stateTotals votes (toUpper stateInput)) stateSummaries"

text \<open>
  Line 226: \<^verbatim>\<open>int bars = round(summary.totalVotes / 150000.0)\<close>. Line 227 builds
  \<^verbatim>\<open>string(bars, '|')\<close>, whose length parameter is unsigned: a negative \<open>bars\<close> becomes a
  length beyond \<^verbatim>\<open>max_size()\<close> and the constructor throws.
\<close>

definition bars :: "int \<Rightarrow> int" where
  "bars n = c_round (ddiv (double_of_int n) 150000)"

datatype error = length_error

definition barString :: "int \<Rightarrow> error + string" where
  "barString n = (if n < 0 then Inl length_error else Inr (replicate (nat n) CHR ''|''))"

fun printBars :: "CandidateSummary list \<Rightarrow> error + (string \<times> string) list" where
  "printBars [] = Inr []"
| "printBars (summary # rest) =
     (case barString (bars (totalVotes summary)) of
        Inl e \<Rightarrow> Inl e
      | Inr line \<Rightarrow>
          (case printBars rest of
             Inl e \<Rightarrow> Inl e
           | Inr lines \<Rightarrow> Inr ((name summary, line) # lines)))"

section \<open>Candidate results\<close>

text \<open>
  \<^verbatim>\<open>showCandidateResults\<close> (lines 232-286). Lines 238-244 resolve the candidate: the
  name of the first record whose upper-cased candidate contains the upper-cased search
  string, the empty string when there is none.
\<close>

fun findCandidate :: "Votes list \<Rightarrow> string \<Rightarrow> string" where
  "findCandidate [] candidateSearch = []"
| "findCandidate (vote # votes) candidateSearch =
     (if str_find (toUpper (getCandidate vote)) candidateSearch \<noteq> None
      then getCandidate vote
      else findCandidate votes candidateSearch)"

text \<open>Lines 246-251: one row per entry of \<open>STATES\<close>, both counters zero.\<close>

type_synonym stateRow = "string \<times> int \<times> int"

definition initStateResults :: "stateRow list" where
  "initStateResults = map (\<lambda>i. (STATES ! i, 0, 0)) [0..<NUM_STATES]"

text \<open>
  Lines 254-262, the inner loop from index \<open>i\<close> on: the first entry of \<open>STATES\<close> equal to
  the record's state gets the record's votes added to its total, and to its candidate
  votes when the record's candidate is the resolved name; then the loop breaks. A state
  that is no entry of \<open>STATES\<close> runs the loop to its end and changes nothing.
\<close>

function tallyVote :: "Votes \<Rightarrow> string \<Rightarrow> stateRow list \<Rightarrow> nat \<Rightarrow> stateRow list" where
  "tallyVote vote candidateName stateResults i =
     (if i < NUM_STATES then
        (if getState vote = STATES ! i then
           stateResults[i :=
             (fst (stateResults ! i),
              (if getCandidate vote = candidateName
               then int_add (fst (snd (stateResults ! i))) (getVoteCount vote)
               else fst (snd (stateResults ! i))),
              int_add (snd (snd (stateResults ! i))) (getVoteCount vote))]
         else tallyVote vote candidateName stateResults (Suc i))
      else stateResults)"
  by pat_completeness auto
termination
  by (relation "measure (\<lambda>(vote, candidateName, stateResults, i). NUM_STATES - i)") auto

definition stateTable :: "Votes list \<Rightarrow> string \<Rightarrow> stateRow list" where
  "stateTable votes candidateName =
     foldl (\<lambda>stateResults vote. tallyVote vote candidateName stateResults 0)
       initStateResults votes"

text \<open>
  Lines 273-280: the percentage printed for a row, and the update of the best state.
  \<^verbatim>\<open>bestPercentage\<close> starts at 0.0 and \<^verbatim>\<open>bestState\<close> at the empty string (lines 265-266).
\<close>

definition rowPercentage :: "stateRow \<Rightarrow> double" where
  "rowPercentage result =
     (if snd (snd result) > 0
      then ddiv (dmul 100 (double_of_int (fst (snd result)))) (double_of_int (snd (snd result)))
      else 0)"

definition bestStep :: "double \<times> string \<Rightarrow> stateRow \<Rightarrow> double \<times> string" where
  "bestStep best result =
     (if snd (snd result) > 0 \<and> rowPercentage result > fst best
      then (rowPercentage result, fst result)
      else best)"

record CandidateResults =
  candidateName :: string
  stateResults :: "stateRow list"
  percentages :: "double list"
  bestPercentage :: double
  bestState :: string

definition showCandidateResults :: "Votes list \<Rightarrow> string \<Rightarrow> CandidateResults" where
  "showCandidateResults votes candidateInput =
     (let candidateSearch = toUpper candidateInput;
          resolved = findCandidate votes candidateSearch;
          table = stateTable votes resolved;
          best = foldl bestStep (0, []) table
      in \<lparr>candidateName = resolved,
          stateResults = table,
          percentages = map rowPercentage table,
          bestPercentage = fst best,
          bestState = snd best\<rparr>)"

section \<open>County search\<close>

text \<open>\<^verbatim>\<open>showCountySearch\<close> (lines 289-302) prints, in the order of the input, every record
  whose upper-cased county contains the upper-cased search string.\<close>

definition showCountySearch :: "Votes list \<Rightarrow> string \<Rightarrow> Votes list" where
  "showCountySearch votes countyInput =
     filter (\<lambda>vote. str_find (toUpper (getCounty vote)) (toUpper countyInput) \<noteq> None) votes"

section \<open>Vocabulary of the properties\<close>

text \<open>The votes a record list holds for one candidate, and the total a list of summaries
  holds under one name.\<close>

definition votesFor :: "string \<Rightarrow> Votes list \<Rightarrow> int" where
  "votesFor c votes = sum_list (map getVoteCount (filter (\<lambda>v. getCandidate v = c) votes))"

definition totalOf :: "string \<Rightarrow> CandidateSummary list \<Rightarrow> int" where
  "totalOf c summaries = sum_list (map totalVotes (filter (\<lambda>s. name s = c) summaries))"

text \<open>The example of the specification: three records of one state.\<close>

definition ohio_votes :: "Votes list" where
  "ohio_votes =
    [\<lparr>getState = ''OHIO'', getCounty = ''Cuyahoga'', getCandidate = ''A'',
      getParty = ''PartyX'', getVoteCount = 100\<rparr>,
     \<lparr>getState = ''OHIO'', getCounty = ''Franklin'', getCandidate = ''A'',
      getParty = ''PartyX'', getVoteCount = 50\<rparr>,
     \<lparr>getState = ''OHIO'', getCounty = ''Cuyahoga'', getCandidate = ''B'',
      getParty = ''PartyY'', getVoteCount = 30\<rparr>]"

definition ohio_summaries :: "CandidateSummary list" where
  "ohio_summaries =
    [\<lparr>name = ''A'', party = ''PartyX'', totalVotes = 150\<rparr>,
     \<lparr>name = ''B'', party = ''PartyY'', totalVotes = 30\<rparr>]"

text \<open>
  The order of the result. \<open>sortedByVotes\<close>: no entry has more votes than an earlier one.
  \<open>firstRecord c votes\<close> is the position of the first record of candidate \<open>c\<close>, and
  \<open>tiesInInputOrder\<close> says that of two entries with equal totals the one whose candidate
  is met first in the input comes first. \<open>firstSeen\<close> lists names in the order in which
  they are first met.
\<close>

definition sortedByVotes :: "CandidateSummary list \<Rightarrow> bool" where
  "sortedByVotes summaries \<longleftrightarrow> sorted_wrt (\<lambda>a b. totalVotes a \<ge> totalVotes b) summaries"

definition firstRecord :: "string \<Rightarrow> Votes list \<Rightarrow> nat" where
  "firstRecord c votes = length (takeWhile (\<lambda>v. getCandidate v \<noteq> c) votes)"

definition tiesInInputOrder :: "Votes list \<Rightarrow> CandidateSummary list \<Rightarrow> bool" where
  "tiesInInputOrder votes summaries \<longleftrightarrow>
     sorted_wrt (\<lambda>a b. totalVotes a = totalVotes b \<longrightarrow>
                   firstRecord (name a) votes < firstRecord (name b) votes) summaries"

fun firstSeen :: "string list \<Rightarrow> string list" where
  "firstSeen [] = []"
| "firstSeen (c # cs) = c # filter (\<lambda>d. d \<noteq> c) (firstSeen cs)"

text \<open>
  Two candidates with the same total, and twenty candidates with the same total, each
  with one record of 10 votes in the same county, listed \<open>C01\<close> to \<open>C20\<close>. \<open>tied_summaries\<close>
  is the vector in the order in which the sort of libstdc++ leaves it.
\<close>

definition tie_votes :: "Votes list" where
  "tie_votes =
    [\<lparr>getState = ''OHIO'', getCounty = ''Cuyahoga'', getCandidate = ''A'',
      getParty = ''PartyX'', getVoteCount = 10\<rparr>,
     \<lparr>getState = ''OHIO'', getCounty = ''Cuyahoga'', getCandidate = ''B'',
      getParty = ''PartyY'', getVoteCount = 10\<rparr>]"

definition tied_votes :: "Votes list" where
  "tied_votes =
     map (\<lambda>c. \<lparr>getState = ''OHIO'', getCounty = ''Cuyahoga'', getCandidate = c,
               getParty = ''PartyX'', getVoteCount = 10\<rparr>)
       [''C01'', ''C02'', ''C03'', ''C04'', ''C05'', ''C06'', ''C07'', ''C08'', ''C09'', ''C10'',
        ''C11'', ''C12'', ''C13'', ''C14'', ''C15'', ''C16'', ''C17'', ''C18'', ''C19'', ''C20'']"

definition tied_summaries :: "CandidateSummary list" where
  "tied_summaries =
     map (\<lambda>c. \<lparr>name = c, party = ''PartyX'', totalVotes = 10\<rparr>)
       [''C11'', ''C20'', ''C19'', ''C18'', ''C17'', ''C16'', ''C15'', ''C14'', ''C13'', ''C12'',
        ''C01'', ''C10'', ''C09'', ''C08'', ''C07'', ''C06'', ''C05'', ''C04'', ''C03'', ''C02'']"

text \<open>
  The records a state query can select: those whose stored state is the upper-cased
  input, and those whose state equals the input when both are upper-cased (the
  comparison that ignores case).
\<close>

definition exactStateVotes :: "Votes list \<Rightarrow> string \<Rightarrow> Votes list" where
  "exactStateVotes votes stateInput =
     filter (\<lambda>vote. getState vote = toUpper stateInput) votes"

definition caseInsensitiveStateVotes :: "Votes list \<Rightarrow> string \<Rightarrow> Votes list" where
  "caseInsensitiveStateVotes votes stateInput =
     filter (\<lambda>vote. toUpper (getState vote) = toUpper stateInput) votes"

text \<open>A record whose state is stored in mixed case.\<close>

definition mixed_case_votes :: "Votes list" where
  "mixed_case_votes =
    [\<lparr>getState = ''Ohio'', getCounty = ''Cuyahoga'', getCandidate = ''A'',
      getParty = ''PartyX'', getVoteCount = 100\<rparr>]"

text \<open>
  Sums of vote counts. \<open>int_sum\<close> adds a list of counts from 0 on with the addition of the
  program; \<open>sum_list\<close> is the sum in the integers. \<open>fitsInt\<close> holds of a list of counts none
  of which is negative and whose sum in the integers is at most \<open>INT_MAX\<close>: no addition
  along such a list overflows. \<open>stateCounts\<close> and \<open>stateCandidateCounts\<close> are the counts
  of the records of one state, and of those of them for one candidate.
\<close>

definition int_sum :: "int list \<Rightarrow> int" where
  "int_sum xs = foldl int_add 0 xs"

definition fitsInt :: "int list \<Rightarrow> bool" where
  "fitsInt xs \<longleftrightarrow> (\<forall>x \<in> set xs. 0 \<le> x) \<and> sum_list xs \<le> INT_MAX"

definition stateCounts :: "string \<Rightarrow> Votes list \<Rightarrow> int list" where
  "stateCounts st votes = map getVoteCount (filter (\<lambda>v. getState v = st) votes)"

definition stateCandidateCounts :: "string \<Rightarrow> string \<Rightarrow> Votes list \<Rightarrow> int list" where
  "stateCandidateCounts st c votes =
     map getVoteCount (filter (\<lambda>v. getState v = st \<and> getCandidate v = c) votes)"

definition stateVotes :: "string \<Rightarrow> Votes list \<Rightarrow> int" where
  "stateVotes st votes = int_sum (stateCounts st votes)"

definition stateCandidateVotes :: "string \<Rightarrow> string \<Rightarrow> Votes list \<Rightarrow> int" where
  "stateCandidateVotes st c votes = int_sum (stateCandidateCounts st c votes)"

text \<open>Records whose counts add up to \<open>INT_MAX + 1\<close>: two records of one candidate, and two
  records of two candidates in one state.\<close>

definition overflow_votes :: "Votes list" where
  "overflow_votes =
    [\<lparr>getState = ''OHIO'', getCounty = ''Cuyahoga'', getCandidate = ''A'',
      getParty = ''PartyX'', getVoteCount = 2147483647\<rparr>,
     \<lparr>getState = ''OHIO'', getCounty = ''Franklin'', getCandidate = ''A'',
      getParty = ''PartyX'', getVoteCount = 1\<rparr>]"

definition overflow_summaries :: "CandidateSummary list" where
  "overflow_summaries = [\<lparr>name = ''A'', party = ''PartyX'', totalVotes = - 2147483648\<rparr>]"

definition overflow_state_votes :: "Votes list" where
  "overflow_state_votes =
    [\<lparr>getState = ''OHIO'', getCounty = ''Cuyahoga'', getCandidate = ''A'',
      getParty = ''PartyX'', getVoteCount = 2147483647\<rparr>,
     \<lparr>getState = ''OHIO'', getCounty = ''Cuyahoga'', getCandidate = ''B'',
      getParty = ''PartyY'', getVoteCount = 1\<rparr>]"

text \<open>
  The largest percentage of a table, not below the 0.0 that \<^verbatim>\<open>bestPercentage\<close> starts
  from, and the position of the first row with a given percentage.
\<close>

definition maxPercentage :: "stateRow list \<Rightarrow> double" where
  "maxPercentage rows = foldl max 0 (map rowPercentage rows)"

definition firstWith :: "double \<Rightarrow> stateRow list \<Rightarrow> nat" where
  "firstWith p rows = length (takeWhile (\<lambda>row. rowPercentage row \<noteq> p) rows)"

text \<open>A candidate without a vote in a state where votes were cast, a record whose candidate
  field is empty, and a record of a jurisdiction that is no entry of \<open>STATES\<close>.\<close>

definition zero_share_votes :: "Votes list" where
  "zero_share_votes =
    [\<lparr>getState = ''OHIO'', getCounty = ''Cuyahoga'', getCandidate = ''A'',
      getParty = ''PartyX'', getVoteCount = 0\<rparr>,
     \<lparr>getState = ''OHIO'', getCounty = ''Cuyahoga'', getCandidate = ''B'',
      getParty = ''PartyY'', getVoteCount = 100\<rparr>]"

definition unnamed_candidate_votes :: "Votes list" where
  "unnamed_candidate_votes =
    [\<lparr>getState = ''OHIO'', getCounty = ''Cuyahoga'', getCandidate = [],
      getParty = ''PartyX'', getVoteCount = 5\<rparr>]"

definition unknown_state_votes :: "Votes list" where
  "unknown_state_votes =
    [\<lparr>getState = ''PUERTO RICO'', getCounty = ''San Juan'', getCandidate = ''A'',
      getParty = ''PartyX'', getVoteCount = 70\<rparr>,
     \<lparr>getState = ''OHIO'', getCounty = ''Cuyahoga'', getCandidate = ''A'',
      getParty = ''PartyX'', getVoteCount = 100\<rparr>]"

text \<open>
  Rounding to the nearest integer, halfway cases away from zero, on the exact quotient:
  what the specification asks of the bar count.
\<close>

definition round_half_away_from_zero :: "rat \<Rightarrow> int" where
  "round_half_away_from_zero q = (if 0 \<le> q then \<lfloor>q + 1 / 2\<rfloor> else \<lceil>q - 1 / 2\<rceil>)"

section \<open>Sums that fit an int\<close>

lemma int_wrap_id: "INT_MIN \<le> x \<Longrightarrow> x \<le> INT_MAX \<Longrightarrow> int_wrap x = x"
  by (simp add: int_wrap_def INT_MIN_def INT_MAX_def)

lemma int_add_exact:
  "INT_MIN \<le> a + b \<Longrightarrow> a + b \<le> INT_MAX \<Longrightarrow> int_add a b = a + b"
  by (simp add: int_add_def int_wrap_id)

lemma int_add_zero: "INT_MIN \<le> b \<Longrightarrow> b \<le> INT_MAX \<Longrightarrow> int_add 0 b = b"
  using int_add_exact [of 0 b] by simp

lemma sum_list_counts_nonneg: "(\<forall>x \<in> set xs. (0::int) \<le> x) \<Longrightarrow> 0 \<le> sum_list xs"
  by (induction xs) auto

lemma foldl_int_add_exact:
  "0 \<le> a \<Longrightarrow> (\<forall>x \<in> set xs. 0 \<le> x) \<Longrightarrow> a + sum_list xs \<le> INT_MAX
   \<Longrightarrow> foldl int_add a xs = a + sum_list xs"
proof (induction xs arbitrary: a)
  case Nil
  then show ?case by simp
next
  case (Cons x xs)
  have x0: "0 \<le> x" and rest: "\<forall>y \<in> set xs. 0 \<le> y" using Cons.prems(2) by simp_all
  have s0: "0 \<le> sum_list xs" using rest by (rule sum_list_counts_nonneg)
  have "INT_MIN \<le> a + x" using Cons.prems(1) x0 by (simp add: INT_MIN_def)
  moreover have "a + x \<le> INT_MAX" using Cons.prems(3) s0 by simp
  ultimately have step: "int_add a x = a + x" by (rule int_add_exact)
  have "foldl int_add (a + x) xs = (a + x) + sum_list xs"
    using Cons.prems(1,3) x0 rest by (intro Cons.IH) simp_all
  then show ?case by (simp add: step)
qed

lemma int_sum_exact: "fitsInt xs \<Longrightarrow> int_sum xs = sum_list xs"
  using foldl_int_add_exact [of 0 xs] by (simp add: fitsInt_def int_sum_def)

lemma sum_list_filter_le:
  "(\<forall>x \<in> set xs. (0::int) \<le> f x) \<Longrightarrow>
   sum_list (map f (filter P xs)) \<le> sum_list (map f xs)"
  by (induction xs) auto

lemma fitsInt_filter:
  assumes "fitsInt (map f xs)"
  shows "fitsInt (map f (filter P xs))"
proof -
  have nn: "\<forall>x \<in> set xs. 0 \<le> f x" using assms by (simp add: fitsInt_def)
  have "sum_list (map f (filter P xs)) \<le> sum_list (map f xs)"
    using nn by (rule sum_list_filter_le)
  then show ?thesis using assms nn by (simp add: fitsInt_def)
qed

lemma member_le_sum_list:
  "(\<forall>y \<in> set xs. (0::int) \<le> y) \<Longrightarrow> x \<in> set xs \<Longrightarrow> x \<le> sum_list xs"
proof (induction xs)
  case Nil
  then show ?case by simp
next
  case (Cons y ys)
  have s0: "0 \<le> sum_list ys" using Cons.prems(1) by (intro sum_list_counts_nonneg) simp
  show ?case
  proof (cases "x = y")
    case True
    then show ?thesis using s0 by simp
  next
    case False
    then have "x \<le> sum_list ys" using Cons by simp
    then show ?thesis using Cons.prems(1) by simp
  qed
qed

lemma fitsInt_member:
  assumes "fitsInt xs" and "x \<in> set xs"
  shows "INT_MIN \<le> x \<and> x \<le> INT_MAX"
proof -
  have nn: "\<forall>y \<in> set xs. 0 \<le> y" using assms(1) by (simp add: fitsInt_def)
  have "x \<le> sum_list xs" using nn assms(2) by (rule member_le_sum_list)
  then have "x \<le> INT_MAX" using assms(1) by (simp add: fitsInt_def)
  moreover have "0 \<le> x" using nn assms(2) by simp
  ultimately show ?thesis by (simp add: INT_MIN_def)
qed

section \<open>The grouping loop\<close>

lemma addVote_names:
  "set (map name (addVote ss v)) = insert (getCandidate v) (set (map name ss))"
  by (induction ss) auto

lemma addVote_distinct:
  "distinct (map name ss) \<Longrightarrow> distinct (map name (addVote ss v))"
proof (induction ss)
  case Nil
  then show ?case by simp
next
  case (Cons s ss)
  then show ?case using addVote_names [of ss v] by auto
qed

lemma filter_name_absent:
  "c \<notin> name ` set ss \<Longrightarrow> filter (\<lambda>s. name s = c) ss = []"
  by (induction ss) auto

text \<open>The total held under a name after one more record: the addition of the program
  where the name is the record's candidate, unchanged elsewhere.\<close>

lemma addVote_totalOf:
  assumes "distinct (map name ss)"
    and "INT_MIN \<le> getVoteCount v" and "getVoteCount v \<le> INT_MAX"
  shows "totalOf c (addVote ss v) =
     (if getCandidate v = c then int_add (totalOf c ss) (getVoteCount v) else totalOf c ss)"
  using assms(1)
proof (induction ss)
  case Nil
  then show ?case using assms(2,3) by (simp add: totalOf_def int_add_zero)
next
  case (Cons s ss)
  have absent: "name s = c \<Longrightarrow> filter (\<lambda>s. name s = c) ss = []"
    using Cons.prems by (auto intro: filter_name_absent)
  show ?case using Cons absent by (auto simp: totalOf_def)
qed

lemma foldl_addVote_names:
  "set (map name (foldl addVote ss vs)) = set (map name ss) \<union> getCandidate ` set vs"
proof (induction vs arbitrary: ss)
  case Nil
  then show ?case by simp
next
  case (Cons v vs)
  show ?case unfolding foldl_Cons Cons.IH addVote_names by auto
qed

lemma foldl_addVote_distinct:
  "distinct (map name ss) \<Longrightarrow> distinct (map name (foldl addVote ss vs))"
  by (induction vs arbitrary: ss) (simp_all add: addVote_distinct)

lemma foldl_addVote_totalOf:
  "distinct (map name ss) \<Longrightarrow>
   (\<forall>v \<in> set vs. INT_MIN \<le> getVoteCount v \<and> getVoteCount v \<le> INT_MAX) \<Longrightarrow>
   totalOf c (foldl addVote ss vs) =
     foldl int_add (totalOf c ss) (map getVoteCount (filter (\<lambda>v. getCandidate v = c) vs))"
proof (induction vs arbitrary: ss)
  case Nil
  then show ?case by simp
next
  case (Cons v vs)
  have d: "distinct (map name (addVote ss v))" using Cons.prems(1) by (rule addVote_distinct)
  have "totalOf c (foldl addVote (addVote ss v) vs) =
     foldl int_add (totalOf c (addVote ss v))
       (map getVoteCount (filter (\<lambda>v. getCandidate v = c) vs))"
    using Cons.IH [OF d] Cons.prems(2) by simp
  then show ?case
    using addVote_totalOf [OF Cons.prems(1), of v c] Cons.prems(2) by simp
qed

lemma totalOf_member:
  assumes "distinct (map name ss)" and "s \<in> set ss"
  shows "totalOf (name s) ss = totalVotes s"
  using assms
proof (induction ss)
  case Nil
  then show ?case by simp
next
  case (Cons a ss)
  show ?case
  proof (cases "s = a")
    case True
    have "filter (\<lambda>t. name t = name a) ss = []"
      using Cons.prems(1) by (auto intro: filter_name_absent)
    then show ?thesis using True by (simp add: totalOf_def)
  next
    case False
    then have mem: "s \<in> set ss" using Cons.prems(2) by simp
    then have "name a \<noteq> name s" using Cons.prems(1) by auto
    then show ?thesis using Cons.IH mem Cons.prems(1) by (simp add: totalOf_def)
  qed
qed

lemma overview_int_sum: "snd (showDataOverview votes) = int_sum (map getVoteCount votes)"
  by (simp add: showDataOverview_def int_sum_def foldl_map)

lemma candidateTotals_distinct: "distinct (map name (candidateTotals votes))"
  unfolding candidateTotals_def by (rule foldl_addVote_distinct) simp

lemma candidateTotals_names:
  "name ` set (candidateTotals votes) = getCandidate ` set votes"
  using foldl_addVote_names [of "[]" votes] by (simp add: candidateTotals_def)

text \<open>Every total is the sum, by the addition of the program, of the counts of the
  records of its candidate.\<close>

lemma candidateTotals_int_sum:
  assumes "\<forall>v \<in> set votes. INT_MIN \<le> getVoteCount v \<and> getVoteCount v \<le> INT_MAX"
    and "s \<in> set (candidateTotals votes)"
  shows "totalVotes s =
     int_sum (map getVoteCount (filter (\<lambda>v. getCandidate v = name s) votes))"
proof -
  have "totalOf (name s) (candidateTotals votes) =
     foldl int_add 0 (map getVoteCount (filter (\<lambda>v. getCandidate v = name s) votes))"
    unfolding candidateTotals_def
    using foldl_addVote_totalOf [of "[]" votes "name s"] assms(1) by (simp add: totalOf_def)
  then show ?thesis
    using totalOf_member [OF candidateTotals_distinct assms(2)] by (simp add: int_sum_def)
qed

lemma candidateTotals_entry:
  assumes "fitsInt (map getVoteCount votes)" and "s \<in> set (candidateTotals votes)"
  shows "totalVotes s = votesFor (name s) votes"
proof -
  have rep: "\<forall>v \<in> set votes. INT_MIN \<le> getVoteCount v \<and> getVoteCount v \<le> INT_MAX"
    using fitsInt_member [OF assms(1)] by simp
  have "fitsInt (map getVoteCount (filter (\<lambda>v. getCandidate v = name s) votes))"
    using assms(1) by (rule fitsInt_filter)
  then show ?thesis
    using candidateTotals_int_sum [OF rep assms(2)] by (simp add: int_sum_exact votesFor_def)
qed

text \<open>The sums of the candidates, taken over a list of distinct names that holds every
  candidate, add up to the sum of all counts.\<close>

lemma sum_list_indicator_absent:
  "c \<notin> set ns \<Longrightarrow> sum_list (map (\<lambda>n. if c = n then x else (0::int)) ns) = 0"
  by (induction ns) auto

lemma sum_list_indicator:
  "distinct ns \<Longrightarrow> c \<in> set ns \<Longrightarrow> sum_list (map (\<lambda>n. if c = n then x else (0::int)) ns) = x"
  by (induction ns) (auto simp: sum_list_indicator_absent)

lemma sum_votesFor:
  "distinct ns \<Longrightarrow> getCandidate ` set votes \<subseteq> set ns \<Longrightarrow>
   sum_list (map (\<lambda>n. votesFor n votes) ns) = sum_list (map getVoteCount votes)"
proof (induction votes)
  case Nil
  then show ?case by (simp add: votesFor_def)
next
  case (Cons v vs)
  have mem: "getCandidate v \<in> set ns" and sub: "getCandidate ` set vs \<subseteq> set ns"
    using Cons.prems(2) by simp_all
  have "sum_list (map (\<lambda>n. votesFor n (v # vs)) ns)
      = sum_list (map (\<lambda>n. (if getCandidate v = n then getVoteCount v else 0) + votesFor n vs) ns)"
    by (intro arg_cong [where f = sum_list] map_cong) (auto simp: votesFor_def)
  also have "\<dots> = sum_list (map (\<lambda>n. if getCandidate v = n then getVoteCount v else 0) ns)
                   + sum_list (map (\<lambda>n. votesFor n vs) ns)"
    by (rule sum_list_addf)
  also have "\<dots> = getVoteCount v + sum_list (map getVoteCount vs)"
    using sum_list_indicator [OF Cons.prems(1) mem] Cons.IH [OF Cons.prems(1) sub] by simp
  finally show ?case by simp
qed

lemma std_sort_distinct_names:
  assumes "std_sort cmp xs ys" and "distinct (map name xs)"
  shows "distinct (map name ys)"
proof -
  from assms(1) have "mset ys = mset xs" by (simp add: std_sort_def)
  then have "mset (map name ys) = mset (map name xs)" by simp
  then show ?thesis using assms(2) by (metis mset_eq_imp_distinct_iff)
qed

lemma std_sort_set: "std_sort cmp xs ys \<Longrightarrow> set ys = set xs"
  by (auto simp: std_sort_def dest: mset_eq_setD)

section \<open>National results: the totals\<close>

text \<open>
  Claim C1, as stated: for every record list the \<open>totalVotes\<close> of the returned entries add
  up to the sum of the \<open>voteCount\<close> of all records, and every entry's \<open>totalVotes\<close> is the sum
  of the vote counts of the records of its candidate. The totals are \<^verbatim>\<open>int\<close>s and are
  added as such (lines 162 and 180): for two records of candidate A with 2147483647 votes
  and 1 vote the only entry returned holds -2147483648, and so does the total that
  \<^verbatim>\<open>showDataOverview\<close> prints, while the vote counts add up to 2147483648.
\<close>

theorem nationalResults_overflow_counterexample:
  "getCandidateSummaries overflow_votes overflow_summaries
   \<and> candidateTotals overflow_votes = overflow_summaries
   \<and> sum_list (map totalVotes overflow_summaries) = - 2147483648
   \<and> snd (showDataOverview overflow_votes) = - 2147483648
   \<and> sum_list (map getVoteCount overflow_votes) = 2147483648
   \<and> votesFor ''A'' overflow_votes = 2147483648"
  by code_simp

text \<open>
  Claim C1, amended. Whatever vector \<^verbatim>\<open>getCandidateSummaries\<close> returns for a record list,
  no name has two entries and the names are those of the records (no record is left out
  and none is counted under two entries). When no vote count is negative and the counts
  add up to at most \<open>INT_MAX\<close>, the \<open>totalVotes\<close> of the entries add up to the vote total
  that \<^verbatim>\<open>showDataOverview\<close> prints, which is the sum of the \<open>voteCount\<close> of all records, and
  every entry's \<open>totalVotes\<close> is the sum of the vote counts of exactly the records with that
  entry's candidate name. In general the printed total and every entry are these sums
  taken with the addition of the program.
\<close>

theorem nationalResults_totals:
  assumes "getCandidateSummaries votes summaries"
  shows "distinct (map name summaries)
       \<and> name ` set summaries = getCandidate ` set votes
       \<and> snd (showDataOverview votes) = int_sum (map getVoteCount votes)
       \<and> ((\<forall>v \<in> set votes. INT_MIN \<le> getVoteCount v \<and> getVoteCount v \<le> INT_MAX) \<longrightarrow>
            (\<forall>s \<in> set summaries. totalVotes s =
               int_sum (map getVoteCount (filter (\<lambda>v. getCandidate v = name s) votes))))
       \<and> (fitsInt (map getVoteCount votes) \<longrightarrow>
            sum_list (map totalVotes summaries) = snd (showDataOverview votes)
            \<and> snd (showDataOverview votes) = sum_list (map getVoteCount votes)
            \<and> (\<forall>s \<in> set summaries. totalVotes s = votesFor (name s) votes))"
proof -
  from assms have srt: "std_sort operator_less (candidateTotals votes) summaries"
    by (simp add: getCandidateSummaries_def)
  have st: "set summaries = set (candidateTotals votes)"
    using srt by (rule std_sort_set)
  have d: "distinct (map name summaries)"
    using std_sort_distinct_names [OF srt candidateTotals_distinct] .
  have n: "name ` set summaries = getCandidate ` set votes"
    using st candidateTotals_names by simp
  have o: "snd (showDataOverview votes) = int_sum (map getVoteCount votes)"
    by (rule overview_int_sum)
  have m: "(\<forall>v \<in> set votes. INT_MIN \<le> getVoteCount v \<and> getVoteCount v \<le> INT_MAX) \<longrightarrow>
            (\<forall>s \<in> set summaries. totalVotes s =
               int_sum (map getVoteCount (filter (\<lambda>v. getCandidate v = name s) votes)))"
    using st candidateTotals_int_sum by blast
  have e: "fitsInt (map getVoteCount votes) \<longrightarrow>
            sum_list (map totalVotes summaries) = snd (showDataOverview votes)
            \<and> snd (showDataOverview votes) = sum_list (map getVoteCount votes)
            \<and> (\<forall>s \<in> set summaries. totalVotes s = votesFor (name s) votes)"
  proof
    assume f: "fitsInt (map getVoteCount votes)"
    have ent: "\<forall>s \<in> set summaries. totalVotes s = votesFor (name s) votes"
      using st candidateTotals_entry [OF f] by blast
    have tot: "snd (showDataOverview votes) = sum_list (map getVoteCount votes)"
      using f by (simp add: o int_sum_exact)
    have "sum_list (map totalVotes summaries)
        = sum_list (map (\<lambda>n. votesFor n votes) (map name summaries))"
      using ent by (simp add: comp_def cong: map_cong)
    also have "\<dots> = sum_list (map getVoteCount votes)"
      using d n by (intro sum_votesFor) simp_all
    finally show "sum_list (map totalVotes summaries) = snd (showDataOverview votes)
            \<and> snd (showDataOverview votes) = sum_list (map getVoteCount votes)
            \<and> (\<forall>s \<in> set summaries. totalVotes s = votesFor (name s) votes)"
      using tot ent by simp
  qed
  from d n o m e show ?thesis by blast
qed

theorem nationalResults_totals_witness:
  "getCandidateSummaries ohio_votes ohio_summaries
   \<and> fitsInt (map getVoteCount ohio_votes)
   \<and> sum_list (map totalVotes ohio_summaries) = 180
   \<and> snd (showDataOverview ohio_votes) = 180
   \<and> votesFor ''A'' ohio_votes = 150
   \<and> votesFor ''B'' ohio_votes = 30"
proof -
  have h: "getCandidateSummaries ohio_votes ohio_summaries"
    by code_simp
  have f: "fitsInt (map getVoteCount ohio_votes)"
    by code_simp
  have o: "snd (showDataOverview ohio_votes) = 180"
    by code_simp
  have v: "votesFor ''A'' ohio_votes = 150" "votesFor ''B'' ohio_votes = 30"
    by code_simp+
  have "sum_list (map totalVotes ohio_summaries) = snd (showDataOverview ohio_votes)"
    using nationalResults_totals [OF h] f by blast
  then have s: "sum_list (map totalVotes ohio_summaries) = 180"
    by (simp only: o)
  show ?thesis
    by (rule conjI [OF h conjI [OF f conjI [OF s conjI [OF o conjI [OF v(1) v(2)]]]]])
qed

section \<open>Every call of the sort returns\<close>

lemma std_sort_total: "\<exists>ys. std_sort operator_less xs ys"
proof -
  let ?ys = "rev (sort_key totalVotes xs)"
  have "mset ?ys = mset xs" by simp
  moreover have "sorted_wrt (\<lambda>a b. \<not> operator_less b a) ?ys"
  proof -
    have "sorted (map totalVotes (sort_key totalVotes xs))" by simp
    then have "sorted_wrt (\<lambda>a b. totalVotes a \<le> totalVotes b) (sort_key totalVotes xs)"
      by (simp add: sorted_wrt_map)
    then have "sorted_wrt (\<lambda>a b. totalVotes b \<le> totalVotes a) ?ys"
      by (simp add: sorted_wrt_rev)
    then show ?thesis by (simp add: operator_less_def not_less)
  qed
  ultimately show ?thesis unfolding std_sort_def by blast
qed

lemma getCandidateSummaries_returns: "\<exists>summaries. getCandidateSummaries votes summaries"
  unfolding getCandidateSummaries_def by (rule std_sort_total)

lemma showStateResults_returns: "\<exists>summaries. showStateResults votes stateInput summaries"
  unfolding showStateResults_def by (rule std_sort_total)

section \<open>The order of the summaries\<close>

lemma addVote_map_name:
  "map name (addVote ss v) =
     (if getCandidate v \<in> name ` set ss then map name ss else map name ss @ [getCandidate v])"
  by (induction ss) auto

lemma foldl_addVote_order:
  "map name (foldl addVote ss vs) =
     map name ss @ filter (\<lambda>c. c \<notin> name ` set ss) (firstSeen (map getCandidate vs))"
proof (induction vs arbitrary: ss)
  case Nil
  then show ?case by simp
next
  case (Cons v vs)
  show ?case
  proof (cases "getCandidate v \<in> name ` set ss")
    case True
    have set_eq: "name ` set (addVote ss v) = name ` set ss"
      using addVote_names [of ss v] True by auto
    have "filter (\<lambda>c. c \<notin> name ` set ss)
            (filter (\<lambda>d. d \<noteq> getCandidate v) (firstSeen (map getCandidate vs)))
          = filter (\<lambda>c. c \<notin> name ` set ss) (firstSeen (map getCandidate vs))"
      using True by (auto intro: filter_cong)
    then show ?thesis
      using True by (simp add: Cons.IH addVote_map_name set_eq)
  next
    case False
    have set_eq: "name ` set (addVote ss v) = insert (getCandidate v) (name ` set ss)"
      using addVote_names [of ss v] by auto
    have "filter (\<lambda>c. c \<notin> insert (getCandidate v) (name ` set ss))
            (firstSeen (map getCandidate vs))
          = filter (\<lambda>c. c \<notin> name ` set ss)
              (filter (\<lambda>d. d \<noteq> getCandidate v) (firstSeen (map getCandidate vs)))"
      by (auto intro: filter_cong)
    then show ?thesis
      using False by (simp add: Cons.IH addVote_map_name set_eq)
  qed
qed

lemma candidateTotals_order:
  "map name (candidateTotals votes) = firstSeen (map getCandidate votes)"
  by (simp add: candidateTotals_def foldl_addVote_order)

text \<open>
  The sort of libstdc++ on vectors of at most 16 entries is an insertion sort, which
  leaves equivalent entries where they are: the vector of the Ohio records comes out
  ordered by votes, and two tied candidates stay in the order of the input.
\<close>

lemma libstdcxx_sort_small:
  "libstdcxx_sort operator_less (candidateTotals ohio_votes) = Some ohio_summaries
   \<and> libstdcxx_sort operator_less (candidateTotals tie_votes) = Some (candidateTotals tie_votes)
   \<and> tiesInInputOrder tie_votes (candidateTotals tie_votes)"
  by code_simp

text \<open>
  Claim C2, as stated: the returned sequence is sorted by \<open>totalVotes\<close>, non-increasing, and
  candidates with equal totals appear in the order in which they are first met in the
  input. The second half fails: the program sorts with \<^verbatim>\<open>std::sort\<close> (line 172), which is
  not a stable sort. With twenty candidates of 10 votes each, met in the order \<open>C01\<close> to
  \<open>C20\<close>, the grouping loop builds the twenty entries in that order and the sort of
  libstdc++ partitions the vector, since it has more than 16 entries: it swaps the
  entry in the middle to the front and then the entries at the positions \<open>k\<close> and
  \<open>20 - k\<close> for \<open>k\<close> from 1 to 9. The result starts with \<open>C11\<close>, \<open>C20\<close>, \<open>C19\<close>; it is a
  vector that \<^verbatim>\<open>getCandidateSummaries\<close> may return, and it does not have the candidates in
  the order of the input.
\<close>

theorem summaries_tie_order_counterexample:
  "libstdcxx_sort operator_less (candidateTotals tied_votes) = Some tied_summaries
   \<and> getCandidateSummaries tied_votes tied_summaries
   \<and> sortedByVotes tied_summaries
   \<and> map name (candidateTotals tied_votes) = map getCandidate tied_votes
   \<and> \<not> tiesInInputOrder tied_votes tied_summaries"
  by code_simp

text \<open>
  Claim C2, amended: the returned sequence is sorted by \<open>totalVotes\<close>, non-increasing, and is
  a rearrangement of the entries that the grouping loop built, which the loop built in
  the order in which the candidates are first met. The order among entries with equal
  totals is left to \<^verbatim>\<open>std::sort\<close>.
\<close>

theorem summaries_sorted:
  assumes "getCandidateSummaries votes summaries"
  shows "sortedByVotes summaries
       \<and> mset summaries = mset (candidateTotals votes)
       \<and> map name (candidateTotals votes) = firstSeen (map getCandidate votes)"
proof -
  from assms have "sorted_wrt (\<lambda>a b. \<not> operator_less b a) summaries"
    and ms: "mset summaries = mset (candidateTotals votes)"
    by (simp_all add: getCandidateSummaries_def std_sort_def)
  then have "sortedByVotes summaries"
    by (simp add: sortedByVotes_def operator_less_def not_less)
  then show ?thesis using ms candidateTotals_order by simp
qed

theorem summaries_sorted_witness:
  "getCandidateSummaries ohio_votes ohio_summaries \<and> sortedByVotes ohio_summaries
   \<and> map name (candidateTotals ohio_votes) = [''A'', ''B'']"
proof -
  have h: "getCandidateSummaries ohio_votes ohio_summaries"
    by code_simp
  have "firstSeen (map getCandidate ohio_votes) = [''A'', ''B'']"
    by code_simp
  then show ?thesis using h summaries_sorted [OF h] by simp
qed

section \<open>State results: the two grouping loops\<close>

lemma addStateVote_addVote: "addStateVote ss v = addVote ss v"
  by (induction ss) auto

lemma foldl_stateTotals_filter:
  "foldl (\<lambda>ss v. if getState v = st then addStateVote ss v else ss) acc votes
   = foldl addVote acc (filter (\<lambda>v. getState v = st) votes)"
  by (induction votes arbitrary: acc) (simp_all add: addStateVote_addVote)

lemma stateTotals_filter:
  "stateTotals votes st = candidateTotals (filter (\<lambda>v. getState v = st) votes)"
  by (simp add: stateTotals_def candidateTotals_def foldl_stateTotals_filter)

text \<open>
  Claim C7. For every record list and every jurisdiction \<open>J\<close>, the grouping loop of
  \<^verbatim>\<open>showStateResults\<close>, run with \<open>J\<close> as the state it compares with, builds the vector that
  the loop of \<^verbatim>\<open>getCandidateSummaries\<close> builds on the sub-list of the records whose state
  is \<open>J\<close>; both are then handed to the same sort, so the two functions have the same
  possible results. In \<^verbatim>\<open>showStateResults\<close> the state \<open>J\<close> is the upper-cased input line.
\<close>

theorem stateResults_refines_aggregate:
  "stateTotals votes J = candidateTotals (filter (\<lambda>vote. getState vote = J) votes)
   \<and> std_sort operator_less (stateTotals votes J) summaries
       = getCandidateSummaries (filter (\<lambda>vote. getState vote = J) votes) summaries
   \<and> showStateResults votes stateInput summaries
       = getCandidateSummaries (exactStateVotes votes stateInput) summaries"
  by (simp add: stateTotals_filter exactStateVotes_def showStateResults_def
      getCandidateSummaries_def)

section \<open>State results: the records included\<close>

text \<open>
  Claim C3, as stated: the state query includes exactly the records whose state equals
  the input when case is ignored, so a stored \<^verbatim>\<open>Ohio\<close> is included for the inputs
  \<^verbatim>\<open>ohio\<close> and \<^verbatim>\<open>OHIO\<close>. It is not: line 207 compares the stored state, unchanged, with the
  upper-cased input. The record below matches both inputs when case is ignored, and the
  query finds no candidate for either.
\<close>

theorem stateResults_case_counterexample:
  "caseInsensitiveStateVotes mixed_case_votes ''ohio'' = mixed_case_votes
   \<and> caseInsensitiveStateVotes mixed_case_votes ''OHIO'' = mixed_case_votes
   \<and> stateTotals mixed_case_votes (toUpper ''ohio'') = []
   \<and> stateTotals mixed_case_votes (toUpper ''OHIO'') = []
   \<and> candidateTotals (caseInsensitiveStateVotes mixed_case_votes ''ohio'') \<noteq> []"
  by code_simp

text \<open>
  Claim C3, amended: the state query includes exactly the records whose stored state
  equals the upper-cased input: the candidates listed are the candidates of those
  records, the entries are the ones the grouping loop of the national query builds from
  those records, and each total is the sum of their votes for that candidate when their
  counts are not negative and add up to at most \<open>INT_MAX\<close>. Case is ignored in the input
  only. When every stored state is in upper case, as the entries of \<open>STATES\<close> are, these
  are the records whose state equals the input when case is ignored.
\<close>

theorem stateResults_included_records:
  assumes "showStateResults votes stateInput summaries"
  shows "name ` set summaries = getCandidate ` set (exactStateVotes votes stateInput)
       \<and> stateTotals votes (toUpper stateInput)
           = candidateTotals (exactStateVotes votes stateInput)
       \<and> mset summaries = mset (candidateTotals (exactStateVotes votes stateInput))
       \<and> (fitsInt (map getVoteCount (exactStateVotes votes stateInput)) \<longrightarrow>
            (\<forall>s \<in> set summaries.
               totalVotes s = votesFor (name s) (exactStateVotes votes stateInput)))
       \<and> ((\<forall>v \<in> set votes. toUpper (getState v) = getState v) \<longrightarrow>
            exactStateVotes votes stateInput = caseInsensitiveStateVotes votes stateInput)"
proof -
  have eq: "stateTotals votes (toUpper stateInput)
           = candidateTotals (exactStateVotes votes stateInput)"
    by (simp add: stateTotals_filter exactStateVotes_def)
  from assms have srt:
    "std_sort operator_less (candidateTotals (exactStateVotes votes stateInput)) summaries"
    by (simp add: showStateResults_def eq)
  have ms: "mset summaries = mset (candidateTotals (exactStateVotes votes stateInput))"
    using srt by (simp add: std_sort_def)
  have nm: "name ` set summaries = getCandidate ` set (exactStateVotes votes stateInput)"
    using std_sort_set [OF srt] candidateTotals_names by simp
  have tot: "fitsInt (map getVoteCount (exactStateVotes votes stateInput)) \<longrightarrow>
      (\<forall>s \<in> set summaries.
         totalVotes s = votesFor (name s) (exactStateVotes votes stateInput))"
    using std_sort_set [OF srt] candidateTotals_entry by blast
  have up: "(\<forall>v \<in> set votes. toUpper (getState v) = getState v) \<longrightarrow>
      exactStateVotes votes stateInput = caseInsensitiveStateVotes votes stateInput"
    by (simp add: exactStateVotes_def caseInsensitiveStateVotes_def cong: filter_cong)
  from nm eq ms tot up show ?thesis by blast
qed

theorem stateResults_included_records_witness:
  "showStateResults ohio_votes ''Ohio'' ohio_summaries
   \<and> exactStateVotes ohio_votes ''Ohio'' = ohio_votes
   \<and> caseInsensitiveStateVotes ohio_votes ''Ohio'' = ohio_votes
   \<and> fitsInt (map getVoteCount (exactStateVotes ohio_votes ''Ohio''))
   \<and> name ` set ohio_summaries = getCandidate ` set ohio_votes"
proof -
  have h: "showStateResults ohio_votes ''Ohio'' ohio_summaries"
    by code_simp
  have e: "exactStateVotes ohio_votes ''Ohio'' = ohio_votes"
    by code_simp
  have u: "\<forall>v \<in> set ohio_votes. toUpper (getState v) = getState v"
    by code_simp
  have f: "fitsInt (map getVoteCount (exactStateVotes ohio_votes ''Ohio''))"
    by code_simp
  show ?thesis using h e u f stateResults_included_records [OF h] by simp
qed

section \<open>Candidate results: the state table\<close>

declare tallyVote.simps [simp del]

lemma length_STATES: "length STATES = NUM_STATES"
  by (simp add: STATES_def NUM_STATES_def)

lemma distinct_STATES: "distinct STATES"
  by (simp add: STATES_def)

lemma initStateResults_map: "initStateResults = map (\<lambda>st. (st, 0, 0)) STATES"
proof -
  have "map (\<lambda>i. (STATES ! i, 0::int, 0::int)) [0..<length STATES]
        = map (\<lambda>st. (st, 0, 0)) (map ((!) STATES) [0..<length STATES])"
    by simp
  then show ?thesis
    unfolding initStateResults_def length_STATES [symmetric] map_nth .
qed

lemma tallyVote_miss:
  "(\<And>j. i \<le> j \<Longrightarrow> j < NUM_STATES \<Longrightarrow> STATES ! j \<noteq> getState vote)
   \<Longrightarrow> tallyVote vote cn tbl i = tbl"
proof (induction vote cn tbl i rule: tallyVote.induct)
  case (1 vote cn tbl i)
  show ?case
  proof (cases "i < NUM_STATES")
    case True
    then have ne: "getState vote \<noteq> STATES ! i" using "1.prems" [of i] by auto
    have "tallyVote vote cn tbl (Suc i) = tbl"
      using "1.IH" [OF True ne] "1.prems" by simp
    then show ?thesis using True ne by (subst tallyVote.simps) simp
  next
    case False
    then show ?thesis by (subst tallyVote.simps) simp
  qed
qed

lemma tallyVote_hit:
  "i \<le> k \<Longrightarrow> k < NUM_STATES \<Longrightarrow> STATES ! k = getState vote
   \<Longrightarrow> (\<And>j. i \<le> j \<Longrightarrow> j < k \<Longrightarrow> STATES ! j \<noteq> getState vote)
   \<Longrightarrow> tallyVote vote cn tbl i =
       tbl[k := (fst (tbl ! k),
                 (if getCandidate vote = cn then int_add (fst (snd (tbl ! k))) (getVoteCount vote)
                  else fst (snd (tbl ! k))),
                 int_add (snd (snd (tbl ! k))) (getVoteCount vote))]"
proof (induction vote cn tbl i rule: tallyVote.induct)
  case (1 vote cn tbl i)
  have lt: "i < NUM_STATES" using "1.prems"(1,2) by simp
  show ?case
  proof (cases "i = k")
    case True
    then show ?thesis using lt "1.prems"(3) by (subst tallyVote.simps) simp
  next
    case False
    then have ik: "Suc i \<le> k" using "1.prems"(1) by simp
    have ne: "getState vote \<noteq> STATES ! i"
      using "1.prems"(4) [of i] False "1.prems"(1) by auto
    have "tallyVote vote cn tbl (Suc i) =
       tbl[k := (fst (tbl ! k),
                 (if getCandidate vote = cn then int_add (fst (snd (tbl ! k))) (getVoteCount vote)
                  else fst (snd (tbl ! k))),
                 int_add (snd (snd (tbl ! k))) (getVoteCount vote))]"
      using "1.IH" [OF lt ne ik "1.prems"(2,3)] "1.prems"(4) by simp
    then show ?thesis using lt ne by (subst tallyVote.simps) simp
  qed
qed

lemma tallyVote_rows:
  "tallyVote vote cn (map (\<lambda>st. (st, a st, b st)) STATES) 0 =
     map (\<lambda>st. (st,
                 (if getState vote = st \<and> getCandidate vote = cn
                  then int_add (a st) (getVoteCount vote) else a st),
                 (if getState vote = st then int_add (b st) (getVoteCount vote) else b st))) STATES"
proof (cases "getState vote \<in> set STATES")
  case False
  then have "\<And>j. j < NUM_STATES \<Longrightarrow> STATES ! j \<noteq> getState vote"
    using length_STATES by (metis nth_mem)
  then have "tallyVote vote cn (map (\<lambda>st. (st, a st, b st)) STATES) 0
             = map (\<lambda>st. (st, a st, b st)) STATES"
    by (intro tallyVote_miss) simp
  moreover have "map (\<lambda>st. (st,
                 (if getState vote = st \<and> getCandidate vote = cn
                  then int_add (a st) (getVoteCount vote) else a st),
                 (if getState vote = st then int_add (b st) (getVoteCount vote) else b st))) STATES
        = map (\<lambda>st. (st, a st, b st)) STATES"
    using False by (intro map_cong) auto
  ultimately show ?thesis by simp
next
  case True
  then obtain k where k: "k < length STATES" "STATES ! k = getState vote"
    by (auto simp: in_set_conv_nth)
  have uniq: "\<And>j. j < length STATES \<Longrightarrow> j \<noteq> k \<Longrightarrow> STATES ! j \<noteq> getState vote"
    using nth_eq_iff_index_eq [OF distinct_STATES] k by metis
  let ?tbl = "map (\<lambda>st. (st, a st, b st)) STATES"
  have hit: "tallyVote vote cn ?tbl 0 =
       ?tbl[k := (fst (?tbl ! k),
                 (if getCandidate vote = cn then int_add (fst (snd (?tbl ! k))) (getVoteCount vote)
                  else fst (snd (?tbl ! k))),
                 int_add (snd (snd (?tbl ! k))) (getVoteCount vote))]"
    using k uniq length_STATES by (intro tallyVote_hit) auto
  show ?thesis
    unfolding hit
  proof (rule nth_equalityI)
    show "length (?tbl[k := (fst (?tbl ! k),
                 (if getCandidate vote = cn then int_add (fst (snd (?tbl ! k))) (getVoteCount vote)
                  else fst (snd (?tbl ! k))),
                 int_add (snd (snd (?tbl ! k))) (getVoteCount vote))]) =
          length (map (\<lambda>st. (st,
                 (if getState vote = st \<and> getCandidate vote = cn
                  then int_add (a st) (getVoteCount vote) else a st),
                 (if getState vote = st then int_add (b st) (getVoteCount vote) else b st))) STATES)"
      by simp
  next
    fix j
    assume "j < length (?tbl[k := (fst (?tbl ! k),
                 (if getCandidate vote = cn then int_add (fst (snd (?tbl ! k))) (getVoteCount vote)
                  else fst (snd (?tbl ! k))),
                 int_add (snd (snd (?tbl ! k))) (getVoteCount vote))])"
    then have j: "j < length STATES" by simp
    show "?tbl[k := (fst (?tbl ! k),
                 (if getCandidate vote = cn then int_add (fst (snd (?tbl ! k))) (getVoteCount vote)
                  else fst (snd (?tbl ! k))),
                 int_add (snd (snd (?tbl ! k))) (getVoteCount vote))] ! j =
          map (\<lambda>st. (st,
                 (if getState vote = st \<and> getCandidate vote = cn
                  then int_add (a st) (getVoteCount vote) else a st),
                 (if getState vote = st then int_add (b st) (getVoteCount vote) else b st))) STATES ! j"
    proof (cases "j = k")
      case True
      then show ?thesis using k by simp
    next
      case False
      then show ?thesis using j k uniq [OF j False] by (simp add: eq_commute)
    qed
  qed
qed

lemma foldl_tallyVote_rows:
  "foldl (\<lambda>tbl vote. tallyVote vote cn tbl 0) (map (\<lambda>st. (st, a st, b st)) STATES) votes =
     map (\<lambda>st. (st, foldl int_add (a st) (stateCandidateCounts st cn votes),
                    foldl int_add (b st) (stateCounts st votes))) STATES"
proof (induction votes arbitrary: a b)
  case Nil
  then show ?case by (simp add: stateCandidateCounts_def stateCounts_def)
next
  case (Cons v vs)
  show ?case
    unfolding foldl_Cons tallyVote_rows Cons.IH
    by (rule map_cong) (auto simp: stateCandidateCounts_def stateCounts_def)
qed

lemma stateTable_rows:
  "stateTable votes cn =
     map (\<lambda>st. (st, stateCandidateVotes st cn votes, stateVotes st votes)) STATES"
  unfolding stateTable_def initStateResults_map
  using foldl_tallyVote_rows [of cn "\<lambda>_. 0" "\<lambda>_. 0" votes]
  by (simp add: stateVotes_def stateCandidateVotes_def int_sum_def)

lemma showCandidateResults_table:
  "stateResults (showCandidateResults votes candidateInput)
   = stateTable votes (candidateName (showCandidateResults votes candidateInput))"
  by (simp add: showCandidateResults_def Let_def)

lemma stateCounts_known:
  "st \<in> set STATES \<Longrightarrow>
   stateCounts st (filter (\<lambda>v. getState v \<in> set STATES) votes) = stateCounts st votes"
  by (induction votes) (auto simp: stateCounts_def)

lemma stateCandidateCounts_known:
  "st \<in> set STATES \<Longrightarrow>
   stateCandidateCounts st c (filter (\<lambda>v. getState v \<in> set STATES) votes)
   = stateCandidateCounts st c votes"
  by (induction votes) (auto simp: stateCandidateCounts_def)

lemma stateVotes_known:
  "st \<in> set STATES \<Longrightarrow>
   stateVotes st (filter (\<lambda>v. getState v \<in> set STATES) votes) = stateVotes st votes"
  by (simp add: stateVotes_def stateCounts_known)

lemma stateCandidateVotes_known:
  "st \<in> set STATES \<Longrightarrow>
   stateCandidateVotes st c (filter (\<lambda>v. getState v \<in> set STATES) votes)
   = stateCandidateVotes st c votes"
  by (simp add: stateCandidateVotes_def stateCandidateCounts_known)

lemma stateCounts_absent: "st \<notin> getState ` set votes \<Longrightarrow> stateCounts st votes = []"
  by (induction votes) (auto simp: stateCounts_def)

lemma stateCandidateCounts_absent:
  "st \<notin> getState ` set votes \<Longrightarrow> stateCandidateCounts st c votes = []"
  by (induction votes) (auto simp: stateCandidateCounts_def)

lemma stateVotes_absent: "st \<notin> getState ` set votes \<Longrightarrow> stateVotes st votes = 0"
  by (simp add: stateVotes_def stateCounts_absent int_sum_def)

lemma stateCandidateVotes_absent:
  "st \<notin> getState ` set votes \<Longrightarrow> stateCandidateVotes st c votes = 0"
  by (simp add: stateCandidateVotes_def stateCandidateCounts_absent int_sum_def)

lemma stateTable_known:
  "stateTable (filter (\<lambda>v. getState v \<in> set STATES) votes) cn = stateTable votes cn"
  unfolding stateTable_rows
  by (rule map_cong) (simp_all add: stateVotes_known stateCandidateVotes_known)

text \<open>
  Claim C6. The table that \<^verbatim>\<open>showCandidateResults\<close> builds has one row per entry of
  \<open>STATES\<close>, in that order. A row whose state is the state of no record keeps both
  counters at 0. A record whose state is no entry of \<open>STATES\<close> adds to no row: the table
  is the one built from the records of known states alone, and taking such a record out
  of the list leaves the table as it is. Nothing fails on such a record.
\<close>

theorem stateTable_untouched_rows:
  "stateResults (showCandidateResults votes candidateInput)
     = stateTable votes (candidateName (showCandidateResults votes candidateInput))
   \<and> NUM_STATES = 51
   \<and> length (stateTable votes cn) = NUM_STATES
   \<and> map fst (stateTable votes cn) = STATES
   \<and> (\<forall>i < NUM_STATES. STATES ! i \<notin> getState ` set votes \<longrightarrow>
         stateTable votes cn ! i = (STATES ! i, 0, 0))
   \<and> stateTable votes cn = stateTable (filter (\<lambda>v. getState v \<in> set STATES) votes) cn
   \<and> (getState vote \<notin> set STATES \<longrightarrow>
         stateTable (before @ vote # after) cn = stateTable (before @ after) cn)"
proof -
  have "\<forall>i < NUM_STATES. STATES ! i \<notin> getState ` set votes \<longrightarrow>
         stateTable votes cn ! i = (STATES ! i, 0, 0)"
    by (simp add: stateTable_rows length_STATES stateVotes_absent stateCandidateVotes_absent)
  moreover have "getState vote \<notin> set STATES \<longrightarrow>
         stateTable (before @ vote # after) cn = stateTable (before @ after) cn"
  proof
    assume "getState vote \<notin> set STATES"
    then have "filter (\<lambda>v. getState v \<in> set STATES) (before @ vote # after)
             = filter (\<lambda>v. getState v \<in> set STATES) (before @ after)"
      by simp
    then show "stateTable (before @ vote # after) cn = stateTable (before @ after) cn"
      using stateTable_known [of "before @ vote # after" cn]
        stateTable_known [of "before @ after" cn] by simp
  qed
  moreover have "map fst (stateTable votes cn) = STATES"
    by (simp add: stateTable_rows comp_def)
  moreover have "NUM_STATES = 51"
    by (simp add: NUM_STATES_def)
  ultimately show ?thesis
    by (simp add: showCandidateResults_table stateTable_known)
      (simp add: stateTable_rows length_STATES)
qed

theorem stateTable_untouched_rows_witness:
  "stateTable unknown_state_votes ''A'' ! 0 = (''ALABAMA'', 0, 0)
   \<and> stateTable unknown_state_votes ''A'' = stateTable (tl unknown_state_votes) ''A''
   \<and> stateTable unknown_state_votes ''A'' ! 34 = (''OHIO'', 100, 100)"
proof -
  have a: "(0::nat) < NUM_STATES" and b: "STATES ! 0 \<notin> getState ` set unknown_state_votes"
    and c: "getState (hd unknown_state_votes) \<notin> set STATES"
    and d: "STATES ! 0 = ''ALABAMA''"
    and e: "hd unknown_state_votes # tl unknown_state_votes = unknown_state_votes"
    by code_simp+
  have f: "stateTable (tl unknown_state_votes) ''A'' ! 34 = (''OHIO'', 100, 100)"
    by code_simp
  note T = stateTable_untouched_rows [of unknown_state_votes "''a''" "''A''"
      "hd unknown_state_votes" "[]" "tl unknown_state_votes"]
  have r1: "stateTable unknown_state_votes ''A'' ! 0 = (STATES ! 0, 0, 0)"
    using T a b by blast
  have "stateTable ([] @ hd unknown_state_votes # tl unknown_state_votes) ''A''
        = stateTable ([] @ tl unknown_state_votes) ''A''"
    using T c by blast
  then have r2: "stateTable unknown_state_votes ''A'' = stateTable (tl unknown_state_votes) ''A''"
    using e by simp
  show ?thesis using r1 r2 d f by simp
qed

section \<open>Candidate results: candidate votes within the total\<close>

lemma stateCandidateCounts_filter:
  "stateCandidateCounts st c votes =
     map getVoteCount (filter (\<lambda>v. getCandidate v = c) (filter (\<lambda>v. getState v = st) votes))"
  by (simp add: stateCandidateCounts_def conj_commute)

lemma state_row_within_total:
  assumes "\<forall>v \<in> set votes. 0 \<le> getVoteCount v"
    and "sum_list (stateCounts st votes) \<le> INT_MAX"
  shows "0 \<le> stateCandidateVotes st c votes
       \<and> stateCandidateVotes st c votes \<le> stateVotes st votes"
proof -
  let ?sv = "filter (\<lambda>v. getState v = st) votes"
  have f: "fitsInt (map getVoteCount ?sv)"
    using assms by (simp add: fitsInt_def stateCounts_def)
  have fc: "fitsInt (map getVoteCount (filter (\<lambda>v. getCandidate v = c) ?sv))"
    using f by (rule fitsInt_filter)
  have t: "stateVotes st votes = sum_list (map getVoteCount ?sv)"
    using f by (simp add: stateVotes_def stateCounts_def int_sum_exact)
  have cv: "stateCandidateVotes st c votes
      = sum_list (map getVoteCount (filter (\<lambda>v. getCandidate v = c) ?sv))"
    using fc by (simp add: stateCandidateVotes_def stateCandidateCounts_filter int_sum_exact)
  have "0 \<le> sum_list (map getVoteCount (filter (\<lambda>v. getCandidate v = c) ?sv))"
    using fc by (intro sum_list_counts_nonneg) (simp add: fitsInt_def)
  moreover have "sum_list (map getVoteCount (filter (\<lambda>v. getCandidate v = c) ?sv))
      \<le> sum_list (map getVoteCount ?sv)"
    using f by (intro sum_list_filter_le) (simp add: fitsInt_def)
  ultimately show ?thesis by (simp add: t cv)
qed

text \<open>
  Claim C10, as stated: when no record has a negative vote count, every row has
  \<open>0 \<le> candidateVotes \<le> totalVotes\<close>. Both counters are \<^verbatim>\<open>int\<close>s (lines 257 and 259). For
  two Ohio records, 2147483647 votes for A and 1 vote for B, the row of Ohio for candidate
  A holds 2147483647 candidate votes and a total of -2147483648.
\<close>

theorem candidateVotes_overflow_counterexample:
  "list_all (\<lambda>v. 0 \<le> getVoteCount v) overflow_state_votes
   \<and> candidateName (showCandidateResults overflow_state_votes ''A'') = ''A''
   \<and> stateResults (showCandidateResults overflow_state_votes ''A'') ! 34
       = (''OHIO'', 2147483647, - 2147483648)"
  by code_simp

text \<open>
  Claim C10, amended. When no record has a negative vote count and the vote counts of the
  records of each state of \<open>STATES\<close> add up to at most \<open>INT_MAX\<close>, every row of the table
  built by \<^verbatim>\<open>showCandidateResults\<close>, for any search string, has
  \<open>0 \<le> candidateVotes \<le> totalVotes\<close>: a record adds to the candidate votes of a row
  only together with the same amount added to the row's total.
\<close>

theorem candidateVotes_within_total:
  assumes "\<forall>v \<in> set votes. 0 \<le> getVoteCount v"
    and "\<forall>st \<in> set STATES. sum_list (stateCounts st votes) \<le> INT_MAX"
  shows "\<forall>row \<in> set (stateResults (showCandidateResults votes candidateInput)).
           0 \<le> fst (snd row) \<and> fst (snd row) \<le> snd (snd row)"
  using state_row_within_total [OF assms(1)] assms(2)
  by (auto simp: showCandidateResults_table stateTable_rows)

theorem candidateVotes_within_total_witness:
  "list_all (\<lambda>row. 0 \<le> fst (snd row) \<and> fst (snd row) \<le> snd (snd row))
     (stateResults (showCandidateResults ohio_votes ''a''))
   \<and> stateResults (showCandidateResults ohio_votes ''a'') ! 34 = (''OHIO'', 150, 180)"
proof -
  have h: "\<forall>v \<in> set ohio_votes. 0 \<le> getVoteCount v"
    by code_simp
  have g: "\<forall>st \<in> set STATES. sum_list (stateCounts st ohio_votes) \<le> INT_MAX"
    by code_simp
  have "stateResults (showCandidateResults ohio_votes ''a'') ! 34 = (''OHIO'', 150, 180)"
    by code_simp
  then show ?thesis
    using candidateVotes_within_total [OF h g, of "''a''"] by (simp add: list_all_iff)
qed

section \<open>Candidate results: resolving the name\<close>

lemma str_find_None: "str_find hay needle = None \<longleftrightarrow> \<not> sublist needle hay"
  by (induction hay) (auto simp: sublist_Cons_right)

lemma str_find_Some: "str_find hay needle = Some i \<Longrightarrow> sublist needle hay"
  using str_find_None [of hay needle] by auto

lemma str_find_self: "str_find hay hay \<noteq> None"
  using str_find_None [of hay hay] by simp

lemma findCandidate_found:
  "findCandidate votes s \<noteq> [] \<Longrightarrow> sublist s (toUpper (findCandidate votes s))"
  by (induction votes) (auto dest: str_find_Some)

lemma findCandidate_idem:
  "findCandidate votes s \<noteq> [] \<Longrightarrow>
   findCandidate votes (toUpper (findCandidate votes s)) = findCandidate votes s"
proof (induction votes)
  case Nil
  then show ?case by simp
next
  case (Cons v vs)
  show ?case
  proof (cases "str_find (toUpper (getCandidate v)) s = None")
    case False
    then have "findCandidate (v # vs) s = getCandidate v" by simp
    then show ?thesis using str_find_self [of "toUpper (getCandidate v)"] by simp
  next
    case True
    then have eq: "findCandidate (v # vs) s = findCandidate vs s" by simp
    then have ne: "findCandidate vs s \<noteq> []" using Cons.prems by simp
    have "\<not> sublist (toUpper (findCandidate vs s)) (toUpper (getCandidate v))"
    proof
      assume "sublist (toUpper (findCandidate vs s)) (toUpper (getCandidate v))"
      then have "sublist s (toUpper (getCandidate v))"
        using findCandidate_found [OF ne] sublist_order.order_trans by blast
      then show False using True by (simp add: str_find_None)
    qed
    then have "str_find (toUpper (getCandidate v)) (toUpper (findCandidate vs s)) = None"
      by (simp add: str_find_None)
    then show ?thesis using eq Cons.IH [OF ne] by simp
  qed
qed

text \<open>
  Claim C9. Resolution is idempotent: when the search for a term resolves to a non-empty
  name \<open>N\<close> (the candidate of the first record whose upper-cased candidate contains
  the upper-cased term), the search for \<open>N\<close> itself resolves to \<open>N\<close> again.
\<close>

theorem candidate_resolution_idempotent:
  assumes "candidateName (showCandidateResults votes searchTerm) = N" and "N \<noteq> []"
  shows "candidateName (showCandidateResults votes N) = N"
  using assms findCandidate_idem [of votes "toUpper searchTerm"]
  by (simp add: showCandidateResults_def Let_def)

theorem candidate_resolution_idempotent_witness:
  "candidateName (showCandidateResults ohio_votes ''b'') = ''B''
   \<and> candidateName (showCandidateResults ohio_votes ''B'') = ''B''"
proof -
  have h: "candidateName (showCandidateResults ohio_votes ''b'') = ''B''"
    by code_simp
  have n: "''B'' \<noteq> []" by simp
  show ?thesis using h candidate_resolution_idempotent [OF h n] by simp
qed

section \<open>Candidate results: the best state\<close>

lemma foldl_max_ge: "(a::rat) \<le> foldl max a xs"
proof (induction xs arbitrary: a)
  case Nil
  then show ?case by simp
next
  case (Cons x xs)
  have "a \<le> max a x" by simp
  also have "\<dots> \<le> foldl max (max a x) xs" by (rule Cons.IH)
  finally show ?case by simp
qed

lemma bestStep_eq:
  "0 \<le> fst best \<Longrightarrow>
   bestStep best row =
     (if rowPercentage row > fst best then (rowPercentage row, fst row) else best)"
  by (auto simp: bestStep_def rowPercentage_def)

lemma foldl_bestStep:
  "0 \<le> bp \<Longrightarrow>
   foldl bestStep (bp, bs) rows =
     (let m = foldl max bp (map rowPercentage rows)
      in (m, if bp < m then fst (rows ! firstWith m rows) else bs))"
proof (induction rows arbitrary: bp bs)
  case Nil
  then show ?case by simp
next
  case (Cons r rs)
  let ?p = "rowPercentage r"
  let ?m = "foldl max (max bp ?p) (map rowPercentage rs)"
  show ?case
  proof (cases "bp < ?p")
    case True
    then have p0: "0 \<le> ?p" using Cons.prems by simp
    have mx: "max bp ?p = ?p" using True by simp
    have ge: "?p \<le> ?m" using foldl_max_ge [of "?p"] mx by simp
    have step: "bestStep (bp, bs) r = (?p, fst r)"
      using True Cons.prems by (simp add: bestStep_eq)
    have "foldl bestStep (?p, fst r) rs =
       (?m, if ?p < ?m then fst (rs ! firstWith ?m rs) else fst r)"
      using Cons.IH [OF p0, of "fst r"] mx by (simp add: Let_def)
    moreover have "(if ?p < ?m then fst (rs ! firstWith ?m rs) else fst r)
                 = fst ((r # rs) ! firstWith ?m (r # rs))"
      using ge by (auto simp: firstWith_def)
    moreover have "bp < ?m" using True ge by simp
    ultimately show ?thesis using step by (simp add: Let_def)
  next
    case False
    have mx: "max bp ?p = bp" using False by simp
    have step: "bestStep (bp, bs) r = (bp, bs)"
      using False Cons.prems by (simp add: bestStep_eq)
    have "foldl bestStep (bp, bs) rs =
       (?m, if bp < ?m then fst (rs ! firstWith ?m rs) else bs)"
      using Cons.IH [OF Cons.prems, of bs] mx by (simp add: Let_def)
    moreover have "bp < ?m \<Longrightarrow> firstWith ?m (r # rs) = Suc (firstWith ?m rs)"
      using False by (auto simp: firstWith_def)
    ultimately show ?thesis using step by (auto simp: Let_def)
  qed
qed

lemma foldl_max_in:
  "foldl max (a::rat) xs = a \<or> foldl max a xs \<in> set xs"
proof (induction xs arbitrary: a)
  case Nil
  then show ?case by simp
next
  case (Cons x xs)
  show ?case using Cons.IH [of "max a x"] by (auto simp: max_def split: if_splits)
qed

lemma foldl_max_upper: "x \<in> set xs \<Longrightarrow> (x::rat) \<le> foldl max a xs"
proof (induction xs arbitrary: a)
  case Nil
  then show ?case by simp
next
  case (Cons y ys)
  show ?case
  proof (cases "x = y")
    case True
    have "x \<le> max a y" using True by simp
    also have "\<dots> \<le> foldl max (max a y) ys" by (rule foldl_max_ge)
    finally show ?thesis by simp
  next
    case False
    then show ?thesis using Cons by simp
  qed
qed

lemma firstWith_props:
  "p \<in> rowPercentage ` set rows \<Longrightarrow>
   firstWith p rows < length rows
   \<and> rowPercentage (rows ! firstWith p rows) = p
   \<and> (\<forall>j < firstWith p rows. rowPercentage (rows ! j) \<noteq> p)"
proof (induction rows)
  case Nil
  then show ?case by simp
next
  case (Cons r rs)
  show ?case
  proof (cases "rowPercentage r = p")
    case True
    then show ?thesis by (simp add: firstWith_def)
  next
    case False
    then have "p \<in> rowPercentage ` set rs" using Cons.prems by auto
    then have IH: "firstWith p rs < length rs"
      "rowPercentage (rs ! firstWith p rs) = p"
      "\<forall>j < firstWith p rs. rowPercentage (rs ! j) \<noteq> p"
      using Cons.IH by simp_all
    have fw: "firstWith p (r # rs) = Suc (firstWith p rs)"
      using False by (simp add: firstWith_def)
    have "\<forall>j < Suc (firstWith p rs). rowPercentage ((r # rs) ! j) \<noteq> p"
      using False IH(3) by (auto simp: nth_Cons split: nat.splits)
    then show ?thesis using IH(1,2) fw by simp
  qed
qed

lemma showCandidateResults_best:
  "bestPercentage (showCandidateResults votes candidateInput)
     = maxPercentage (stateResults (showCandidateResults votes candidateInput))
   \<and> bestState (showCandidateResults votes candidateInput)
     = (if 0 < maxPercentage (stateResults (showCandidateResults votes candidateInput))
        then fst (stateResults (showCandidateResults votes candidateInput)
                  ! firstWith (maxPercentage (stateResults (showCandidateResults votes candidateInput)))
                      (stateResults (showCandidateResults votes candidateInput)))
        else [])"
  using foldl_bestStep [of 0 "[]"]
  by (simp add: showCandidateResults_def Let_def maxPercentage_def)

lemma maxPercentage_cases:
  "maxPercentage rows = 0 \<or> maxPercentage rows \<in> rowPercentage ` set rows"
  using foldl_max_in [of 0 "map rowPercentage rows"] by (simp add: maxPercentage_def)

lemma maxPercentage_upper: "row \<in> set rows \<Longrightarrow> rowPercentage row \<le> maxPercentage rows"
  unfolding maxPercentage_def by (rule foldl_max_upper) simp

lemma maxPercentage_nonneg: "0 \<le> maxPercentage rows"
  unfolding maxPercentage_def by (rule foldl_max_ge)

lemma length_stateResults:
  "length (stateResults (showCandidateResults votes candidateInput)) = NUM_STATES"
  by (simp add: showCandidateResults_table stateTable_rows length_STATES)

lemma fst_stateResults:
  "i < NUM_STATES \<Longrightarrow>
   fst (stateResults (showCandidateResults votes candidateInput) ! i) = STATES ! i"
  by (simp add: showCandidateResults_table stateTable_rows length_STATES)

section \<open>Searches that match nothing, and the empty search\<close>

lemma findCandidate_no_match:
  "(\<forall>v \<in> set votes. str_find (toUpper (getCandidate v)) s = None)
   \<Longrightarrow> findCandidate votes s = []"
  by (induction votes) auto

lemma str_find_empty: "str_find hay [] = Some 0"
  by (cases hay) simp_all

lemma findCandidate_empty_term:
  "findCandidate votes [] = (case votes of [] \<Rightarrow> [] | vote # rest \<Rightarrow> getCandidate vote)"
  by (cases votes) (simp_all add: str_find_empty)

lemma stateCandidateCounts_unnamed:
  "(\<forall>v \<in> set votes. getCandidate v \<noteq> c) \<Longrightarrow> stateCandidateCounts st c votes = []"
  by (induction votes) (auto simp: stateCandidateCounts_def)

lemma stateCandidateVotes_unnamed:
  "(\<forall>v \<in> set votes. getCandidate v \<noteq> c) \<Longrightarrow> stateCandidateVotes st c votes = 0"
  by (simp add: stateCandidateVotes_def stateCandidateCounts_unnamed int_sum_def)

lemma rowPercentage_zero: "fst (snd row) = 0 \<Longrightarrow> rowPercentage row = 0"
  by (simp add: rowPercentage_def double_of_int_def dmul_def ddiv_def fl_def)

lemma maxPercentage_zero:
  "(\<forall>row \<in> set rows. rowPercentage row = 0) \<Longrightarrow> maxPercentage rows = 0"
  using maxPercentage_cases [of rows] by auto

text \<open>
  Claim C5, as stated: an empty search term, like a term that matches nothing, gives an
  empty result: no resolved candidate and all candidate votes 0, or no record. For the
  empty term it does not: \<^verbatim>\<open>find\<close> finds the empty string in every string (lines 240 and
  296), so the candidate query resolves to the candidate of the first record and the
  county query prints every record. For a term that matches nothing the candidate votes
  are 0 only when no record has an empty candidate name: the unresolved name is the empty
  string, and line 256 counts the records whose candidate equals it.
\<close>

theorem empty_search_counterexample:
  "candidateName (showCandidateResults ohio_votes []) = ''A''
   \<and> stateResults (showCandidateResults ohio_votes []) ! 34 = (''OHIO'', 150, 180)
   \<and> showCountySearch ohio_votes [] = ohio_votes
   \<and> candidateName (showCandidateResults unnamed_candidate_votes ''xyz123'') = []
   \<and> stateResults (showCandidateResults unnamed_candidate_votes ''xyz123'') ! 34
       = (''OHIO'', 5, 5)"
  by code_simp

text \<open>
  Claim C5, amended: a search term that matches no record gives an empty result. The
  candidate query resolves to the empty name; when no record has an empty candidate
  name, all candidate votes are 0 and no best state is reported. The county query
  prints no record. The empty search term matches every record: the candidate query
  resolves to the candidate of the first record, the county query prints all records.
  Both functions are total in the model: the source has no failing path in them.
\<close>

theorem no_match_results:
  "((\<forall>v \<in> set votes. str_find (toUpper (getCandidate v)) (toUpper searchTerm) = None) \<longrightarrow>
      candidateName (showCandidateResults votes searchTerm) = []
      \<and> ((\<forall>v \<in> set votes. getCandidate v \<noteq> []) \<longrightarrow>
            (\<forall>row \<in> set (stateResults (showCandidateResults votes searchTerm)).
               fst (snd row) = 0)
            \<and> bestPercentage (showCandidateResults votes searchTerm) = 0
            \<and> bestState (showCandidateResults votes searchTerm) = []))
   \<and> ((\<forall>v \<in> set votes. str_find (toUpper (getCounty v)) (toUpper searchTerm) = None) \<longrightarrow>
        showCountySearch votes searchTerm = [])
   \<and> candidateName (showCandidateResults votes []) =
        (case votes of [] \<Rightarrow> [] | vote # rest \<Rightarrow> getCandidate vote)
   \<and> showCountySearch votes [] = votes"
proof -
  let ?R = "showCandidateResults votes searchTerm"
  have name: "(\<forall>v \<in> set votes. str_find (toUpper (getCandidate v)) (toUpper searchTerm) = None)
      \<longrightarrow> candidateName ?R = []"
    by (simp add: showCandidateResults_def Let_def findCandidate_no_match)
  have zero: "candidateName ?R = [] \<longrightarrow> (\<forall>v \<in> set votes. getCandidate v \<noteq> []) \<longrightarrow>
            (\<forall>row \<in> set (stateResults ?R). fst (snd row) = 0)
            \<and> bestPercentage ?R = 0 \<and> bestState ?R = []"
  proof (intro impI)
    assume n: "candidateName ?R = []" and ne: "\<forall>v \<in> set votes. getCandidate v \<noteq> []"
    have rows: "\<forall>row \<in> set (stateResults ?R). fst (snd row) = 0"
      using ne by (auto simp: showCandidateResults_table n stateTable_rows
          stateCandidateVotes_unnamed)
    then have "maxPercentage (stateResults ?R) = 0"
      by (intro maxPercentage_zero) (simp add: rowPercentage_zero)
    then have "bestPercentage ?R = 0 \<and> bestState ?R = []"
      using showCandidateResults_best [of votes searchTerm] by simp
    then show "(\<forall>row \<in> set (stateResults ?R). fst (snd row) = 0)
            \<and> bestPercentage ?R = 0 \<and> bestState ?R = []"
      using rows by simp
  qed
  have county: "(\<forall>v \<in> set votes. str_find (toUpper (getCounty v)) (toUpper searchTerm) = None)
      \<longrightarrow> showCountySearch votes searchTerm = []"
    by (simp add: showCountySearch_def)
  have e1: "candidateName (showCandidateResults votes []) =
        (case votes of [] \<Rightarrow> [] | vote # rest \<Rightarrow> getCandidate vote)"
    by (simp add: showCandidateResults_def Let_def toUpper_def findCandidate_empty_term)
  have e2: "showCountySearch votes [] = votes"
    by (simp add: showCountySearch_def toUpper_def str_find_empty)
  from name zero county e1 e2 show ?thesis by blast
qed

theorem no_match_results_witness:
  "candidateName (showCandidateResults ohio_votes ''xyz123'') = []
   \<and> list_all (\<lambda>row. fst (snd row) = 0) (stateResults (showCandidateResults ohio_votes ''xyz123''))
   \<and> bestState (showCandidateResults ohio_votes ''xyz123'') = []
   \<and> showCountySearch ohio_votes ''xyz123'' = []"
proof -
  have a: "\<forall>v \<in> set ohio_votes. str_find (toUpper (getCandidate v)) (toUpper ''xyz123'') = None"
    by code_simp
  have b: "\<forall>v \<in> set ohio_votes. getCandidate v \<noteq> []"
    by code_simp
  have c: "\<forall>v \<in> set ohio_votes. str_find (toUpper (getCounty v)) (toUpper ''xyz123'') = None"
    by code_simp
  show ?thesis
    using no_match_results [of ohio_votes "''xyz123''"] a b c
    by (simp add: list_all_iff)
qed

section \<open>Double-precision arithmetic: exponent and rounding error\<close>

declare bit_length.simps [simp del]

lemma bit_length_nonpos: "n \<le> 0 \<Longrightarrow> bit_length n = 0"
  by (subst bit_length.simps) simp

lemma bit_length_pos: "0 < n \<Longrightarrow> bit_length n = bit_length (n div 2) + 1"
  by (subst bit_length.simps) simp

lemma bit_length_nonneg: "0 \<le> bit_length n"
proof (induction n rule: bit_length.induct)
  case (1 n)
  show ?case
  proof (cases "n \<le> 0")
    case True
    then show ?thesis by (simp add: bit_length_nonpos)
  next
    case False
    then show ?thesis using 1 by (simp add: bit_length_pos)
  qed
qed

lemma bit_length_bounds:
  "0 < n \<Longrightarrow> 2 ^ nat (bit_length n - 1) \<le> n \<and> n < 2 ^ nat (bit_length n)"
proof (induction n rule: bit_length.induct)
  case (1 n)
  show ?case
  proof (cases "n = 1")
    case True
    have "bit_length (1::int) = 1"
      by (simp add: bit_length_pos bit_length_nonpos)
    then show ?thesis using True by simp
  next
    case False
    then have h: "0 < n div 2" using "1.prems" by simp
    then have IH: "2 ^ nat (bit_length (n div 2) - 1) \<le> n div 2"
      "n div 2 < 2 ^ nat (bit_length (n div 2))"
      using "1.IH" "1.prems" by simp_all
    have bl: "bit_length n = bit_length (n div 2) + 1"
      using "1.prems" by (rule bit_length_pos)
    have ge1: "1 \<le> bit_length (n div 2)"
      using h bit_length_pos [OF h] bit_length_nonneg [of "n div 2 div 2"] by simp
    have e1: "nat (bit_length n - 1) = Suc (nat (bit_length (n div 2) - 1))"
      using bl ge1 by simp
    have e2: "nat (bit_length n) = Suc (nat (bit_length (n div 2)))"
      using bl ge1 by simp
    have "2 * 2 ^ nat (bit_length (n div 2) - 1) \<le> 2 * (n div 2)" using IH(1) by simp
    also have "\<dots> \<le> n" by simp
    finally have lo: "2 ^ nat (bit_length n - 1) \<le> n" by (simp add: e1)
    have "n div 2 + 1 \<le> 2 ^ nat (bit_length (n div 2))" using IH(2) by simp
    then have "2 * (n div 2 + 1) \<le> 2 * 2 ^ nat (bit_length (n div 2))" by simp
    moreover have "n < 2 * (n div 2 + 1)" by simp
    ultimately have hi: "n < 2 ^ nat (bit_length n)" by (simp add: e2)
    show ?thesis using lo hi by simp
  qed
qed

lemma ilog2_bounds:
  assumes "0 < a"
  shows "power_int 2 (ilog2 a) \<le> a \<and> a < power_int 2 (ilog2 a + 1)"
proof (cases "1 \<le> a")
  case True
  let ?n = "\<lfloor>a\<rfloor>"
  have n: "0 < ?n" using True by simp
  note b = bit_length_bounds [OF n]
  have ge1: "1 \<le> bit_length ?n"
    using bit_length_pos [OF n] bit_length_nonneg [of "?n div 2"] by simp
  have e: "ilog2 a = int (nat (bit_length ?n - 1))"
    using True ge1 by (simp add: ilog2_def)
  have e': "ilog2 a + 1 = int (nat (bit_length ?n))"
    using True ge1 by (simp add: ilog2_def)
  have "(2::rat) ^ nat (bit_length ?n - 1) = of_int (2 ^ nat (bit_length ?n - 1))" by simp
  also have "\<dots> \<le> of_int ?n" using b by (simp only: of_int_le_iff)
  also have "\<dots> \<le> a" by simp
  finally have lo: "power_int 2 (ilog2 a) \<le> a"
    unfolding e power_int_of_nat .
  have "?n + 1 \<le> 2 ^ nat (bit_length ?n)" using b by simp
  then have "(of_int (?n + 1) :: rat) \<le> of_int (2 ^ nat (bit_length ?n))"
    by (simp only: of_int_le_iff)
  moreover have "a < of_int (?n + 1)" by linarith
  ultimately have "a < 2 ^ nat (bit_length ?n)" by simp
  then have hi: "a < power_int 2 (ilog2 a + 1)"
    unfolding e' power_int_of_nat .
  show ?thesis using lo hi by simp
next
  case False
  let ?y = "1 / a"
  let ?m = "\<lceil>?y\<rceil> - 1"
  have y: "1 < ?y" using False assms by simp
  have m: "0 < ?m" using y by linarith
  note b = bit_length_bounds [OF m]
  have ge1: "1 \<le> bit_length ?m"
    using bit_length_pos [OF m] bit_length_nonneg [of "?m div 2"] by simp
  define k where "k = nat (bit_length ?m)"
  have k1: "1 \<le> k" using ge1 by (simp add: k_def)
  have e: "ilog2 a = - int k"
    using False ge1 by (simp add: ilog2_def k_def)
  have km: "nat (bit_length ?m - 1) = k - 1"
    using ge1 by (simp add: k_def nat_diff_distrib)
  have "?m + 1 \<le> 2 ^ k" using b by (simp add: k_def)
  then have "(of_int (?m + 1) :: rat) \<le> of_int (2 ^ k)" by (simp only: of_int_le_iff)
  moreover have "?y \<le> of_int (?m + 1)" by simp
  moreover have "(of_int (2 ^ k) :: rat) = 2 ^ k" by simp
  ultimately have "?y \<le> 2 ^ k" by linarith
  then have "1 \<le> a * 2 ^ k" using assms by (simp add: field_simps)
  then have lo: "power_int 2 (ilog2 a) \<le> a"
    unfolding e by (simp add: power_int_minus field_simps)
  have "(of_int (2 ^ (k - 1)) :: rat) \<le> of_int ?m"
    using b km by (simp only: of_int_le_iff)
  moreover have "of_int ?m < ?y" by linarith
  moreover have "(of_int (2 ^ (k - 1)) :: rat) = 2 ^ (k - 1)" by simp
  ultimately have "2 ^ (k - 1) < ?y" by linarith
  then have "a * 2 ^ (k - 1) < 1" using assms by (simp add: field_simps)
  then have "a < inverse (2 ^ (k - 1))"
    by (simp add: inverse_eq_divide pos_less_divide_eq)
  moreover have "power_int (2::rat) (ilog2 a + 1) = inverse (2 ^ (k - 1))"
  proof -
    have "ilog2 a + 1 = - int (k - 1)" using k1 e by simp
    then show ?thesis by (simp only: power_int_minus power_int_of_nat)
  qed
  ultimately have hi: "a < power_int 2 (ilog2 a + 1)" by simp
  show ?thesis using lo hi by simp
qed

lemma round_even_error: "\<bar>of_int (round_even y) - y\<bar> \<le> 1 / 2"
proof -
  have "of_int \<lfloor>y\<rfloor> \<le> y" "y < of_int \<lfloor>y\<rfloor> + 1" by linarith+
  then show ?thesis
    by (auto simp: round_even_def Let_def abs_le_iff)
qed

lemma round_even_of_int: "round_even (of_int k) = k"
  by (simp add: round_even_def)

lemma round_even_nonneg: "0 \<le> y \<Longrightarrow> 0 \<le> round_even y"
  by (auto simp: round_even_def Let_def)

lemma fl_minus: "fl (- x) = - fl x"
  by (simp add: fl_def)

lemma fl_pos:
  "0 < a \<Longrightarrow>
   fl a = of_int (round_even (a * power_int 2 (52 - ilog2 a))) * power_int 2 (ilog2 a - 52)"
  by (simp add: fl_def)

lemma scale_inverse: "power_int (2::rat) (52 - e) * power_int 2 (e - 52) = 1"
proof -
  have "power_int (2::rat) ((52 - e) + (e - 52)) = power_int 2 (52 - e) * power_int 2 (e - 52)"
    by (rule power_int_add) simp
  then show ?thesis by simp
qed

lemma fl_nonneg: "0 \<le> a \<Longrightarrow> 0 \<le> fl a"
proof (cases "a = 0")
  case True
  then show ?thesis by (simp add: fl_def)
next
  case False
  assume "0 \<le> a"
  then have a: "0 < a" using False by simp
  have "0 \<le> a * power_int 2 (52 - ilog2 a)" using a by simp
  then have "0 \<le> round_even (a * power_int 2 (52 - ilog2 a))" by (rule round_even_nonneg)
  then show ?thesis unfolding fl_pos [OF a] by simp
qed

lemma fl_error:
  assumes "0 < a"
  shows "\<bar>fl a - a\<bar> \<le> power_int 2 (ilog2 a - 53)"
proof -
  define s :: rat where "s = power_int 2 (52 - ilog2 a)"
  define t :: rat where "t = power_int 2 (ilog2 a - 52)"
  define m where "m = round_even (a * s)"
  have st: "s * t = 1" unfolding s_def t_def by (rule scale_inverse)
  have t0: "0 < t" unfolding t_def by (simp add: zero_less_power_int)
  have "fl a - a = of_int m * t - a * (s * t)"
    unfolding fl_pos [OF assms] m_def s_def t_def st [unfolded s_def t_def] by simp
  also have "\<dots> = t * (of_int m - a * s)" by (simp add: algebra_simps)
  finally have "\<bar>fl a - a\<bar> = t * \<bar>of_int m - a * s\<bar>"
    using t0 by (simp add: abs_mult)
  also have "\<dots> \<le> t * (1 / 2)"
    using round_even_error [of "a * s"] t0 unfolding m_def
    by (intro mult_left_mono) simp_all
  also have "\<dots> = power_int 2 (ilog2 a - 53)"
  proof -
    have "power_int (2::rat) ((ilog2 a - 53) + 1) = power_int 2 (ilog2 a - 53) * 2"
      by (rule power_int_add_1) simp
    then have "t = power_int 2 (ilog2 a - 53) * 2"
      unfolding t_def by simp
    then show ?thesis by simp
  qed
  finally show ?thesis .
qed

lemma fl_exact:
  assumes "0 < a" and "a * 2 ^ d = of_int j" and "ilog2 a + int d \<le> 52"
  shows "fl a = a"
proof -
  define r where "r = nat (52 - ilog2 a - int d)"
  have "52 - ilog2 a = int d + int r" using assms(3) by (simp add: r_def)
  then have "power_int (2::rat) (52 - ilog2 a) = 2 ^ d * 2 ^ r"
    by (simp add: power_int_add power_int_of_nat del: of_nat_add)
  then have "a * power_int 2 (52 - ilog2 a) = of_int (j * 2 ^ r)"
    using assms(2) by (simp add: mult.assoc [symmetric])
  then have "round_even (a * power_int 2 (52 - ilog2 a)) = j * 2 ^ r"
    by (simp only: round_even_of_int)
  then have "fl a = of_int (j * 2 ^ r) * power_int 2 (ilog2 a - 52)"
    unfolding fl_pos [OF assms(1)] by simp
  also have "\<dots> = a * (power_int 2 (52 - ilog2 a) * power_int 2 (ilog2 a - 52))"
    using \<open>a * power_int 2 (52 - ilog2 a) = of_int (j * 2 ^ r)\<close> by (simp add: mult.assoc [symmetric])
  finally show ?thesis by (simp add: scale_inverse)
qed

lemma ilog2_less:
  assumes "0 < a" and "a < 2 ^ n"
  shows "ilog2 a < int n"
proof -
  have "power_int 2 (ilog2 a) \<le> a" using ilog2_bounds [OF assms(1)] by simp
  then have "power_int (2::rat) (ilog2 a) < power_int 2 (int n)"
    using assms(2) by (simp add: power_int_of_nat)
  then show ?thesis by (rule power_int_le_imp_less_exp [rotated]) simp_all
qed

lemma fl_of_int:
  assumes "\<bar>i\<bar> < 2 ^ 53"
  shows "fl (of_int i) = of_int i"
proof -
  have pos: "fl (of_int k) = of_int k" if "0 < k" "k < 2 ^ 53" for k :: int
  proof -
    have a: "0 < (of_int k :: rat)" using that by simp
    have "(of_int k :: rat) < of_int (2 ^ 53)" using that(2) by (simp only: of_int_less_iff)
    then have "(of_int k :: rat) < 2 ^ 53" by simp
    then have "ilog2 (of_int k) < int 53" using a by (intro ilog2_less)
    then have "ilog2 (of_int k) + int 0 \<le> 52" by simp
    then show ?thesis using a by (intro fl_exact [where d = 0 and j = k]) simp_all
  qed
  consider "i = 0" | "0 < i" | "i < 0" by linarith
  then show ?thesis
  proof cases
    case 1
    then show ?thesis by (simp add: fl_def)
  next
    case 2
    then show ?thesis using pos assms by simp
  next
    case 3
    then have "fl (of_int (- i)) = of_int (- i)" using pos [of "- i"] assms by simp
    then show ?thesis using fl_minus [of "of_int i"] by simp
  qed
qed

section \<open>State results: the bar count\<close>

lemma floor_half: "\<lfloor>1 / 2 :: rat\<rfloor> = 0"
  by (simp add: floor_eq_iff)

lemma c_round_minus: "c_round (- y) = - c_round y"
  by (auto simp: c_round_def floor_half)

lemma round_half_away_c_round: "round_half_away_from_zero q = c_round q"
  by (auto simp: round_half_away_from_zero_def c_round_def ceiling_def)

lemma bars_nonneg_case:
  assumes "0 \<le> t" and "t \<le> 2 ^ 31"
  shows "bars t = (t + 75000) div 150000"
    and "bars t = \<lfloor>of_int t / 150000 + 1 / 2 :: rat\<rfloor>"
proof -
  define x :: rat where "x = of_int t / 150000"
  define n where "n = (t + 75000) div 150000"
  define r where "r = (t + 75000) mod 150000"
  have conv: "double_of_int t = of_int t"
    unfolding double_of_int_def using assms by (intro fl_of_int) simp
  have b: "bars t = c_round (fl x)"
    by (simp add: bars_def conv ddiv_def x_def)
  have x0: "0 \<le> x" using assms(1) by (simp add: x_def)
  have flx0: "0 \<le> fl x" using x0 by (rule fl_nonneg)
  have cr: "c_round (fl x) = \<lfloor>fl x + 1 / 2\<rfloor>" using flx0 by (simp add: c_round_def)
  have split: "t + 75000 = 150000 * n + r" and r0: "0 \<le> r" and r1: "r < 150000"
    by (simp_all add: n_def r_def)
  have "x + 1 / 2 = of_int (t + 75000) / 150000" by (simp add: x_def)
  also have "\<dots> = of_int (150000 * n + r) / 150000" by (simp only: split)
  also have "\<dots> = of_int n + of_int r / 150000" by simp
  finally have xs: "x + 1 / 2 = of_int n + of_int r / 150000" .
  have fx: "\<lfloor>x + 1 / 2\<rfloor> = n"
  proof (rule floor_unique)
    show "of_int n \<le> x + 1 / 2" using r0 by (simp add: xs)
    have "(of_int r :: rat) < 150000" using r1 by simp
    then show "x + 1 / 2 < of_int n + 1" by (simp add: xs)
  qed
  have "\<lfloor>fl x + 1 / 2\<rfloor> = n"
  proof (cases "r = 0")
    case True
    then have xh: "x = of_int n - 1 / 2" using xs by simp
    show ?thesis
    proof (cases "x = 0")
      case True
      then show ?thesis using fx by (simp add: fl_def)
    next
      case False
      then have xp: "0 < x" using x0 by simp
      have "(of_int t :: rat) \<le> of_int (2 ^ 31)" using assms(2) by (simp only: of_int_le_iff)
      then have "x < 2 ^ 14" by (simp add: x_def)
      then have "ilog2 x < int 14" using xp by (intro ilog2_less)
      then have e: "ilog2 x + int 1 \<le> 52" by simp
      have "x * 2 ^ 1 = of_int (2 * n - 1)" by (simp add: xh)
      then have "fl x = x" using xp e by (intro fl_exact [where d = 1 and j = "2 * n - 1"])
      then show ?thesis using fx by simp
    qed
  next
    case False
    then have r2: "1 \<le> r" "r \<le> 149999" using r0 r1 by simp_all
    then have rr: "(1::rat) \<le> of_int r" "(of_int r :: rat) \<le> 149999"
      by simp_all
    have err: "\<bar>fl x - x\<bar> < 1 / 150000"
    proof (cases "x = 0")
      case True
      then show ?thesis by (simp add: fl_def)
    next
      case False
      then have xp: "0 < x" using x0 by simp
      have "(of_int t :: rat) \<le> of_int (2 ^ 31)"
        using assms(2) by (simp only: of_int_le_iff)
      then have "x < 2 ^ 14" by (simp add: x_def)
      then have "ilog2 x < int 14" using xp by (intro ilog2_less)
      then have "ilog2 x - 53 \<le> - 40" by simp
      then have "power_int (2::rat) (ilog2 x - 53) \<le> power_int 2 (- 40)"
        by (intro power_int_increasing) simp_all
      also have "\<dots> < 1 / 150000" by (simp add: power_int_minus)
      finally show ?thesis using fl_error [OF xp] by simp
    qed
    have lo: "of_int n + 1 / 150000 \<le> x + 1 / 2" using rr(1) by (simp add: xs)
    have hi: "x + 1 / 2 \<le> of_int n + 149999 / 150000" using rr(2) by (simp add: xs)
    show ?thesis
    proof (rule floor_unique)
      show "of_int n \<le> fl x + 1 / 2" using err lo by linarith
      show "fl x + 1 / 2 < of_int n + 1" using err hi by linarith
    qed
  qed
  then show "bars t = (t + 75000) div 150000"
    using b cr by (simp add: n_def)
  then show "bars t = \<lfloor>of_int t / 150000 + 1 / 2 :: rat\<rfloor>"
    using fx by (simp add: n_def x_def)
qed

lemma bars_minus:
  assumes "\<bar>t\<bar> \<le> 2 ^ 31"
  shows "bars (- t) = - bars t"
proof -
  have "double_of_int t = of_int t" "double_of_int (- t) = of_int (- t)"
    unfolding double_of_int_def using assms by (intro fl_of_int; simp)+
  then show ?thesis
    using fl_minus [of "of_int t / 150000"] by (simp add: bars_def ddiv_def c_round_minus)
qed

text \<open>
  Claim C8. For every \<open>totalVotes\<close> that an \<^verbatim>\<open>int\<close> can hold, the bar count that
  \<^verbatim>\<open>showStateResults\<close> computes in double precision is the exact quotient
  \<open>totalVotes / 150000\<close> rounded to the nearest integer, halfway cases away from zero;
  for a non-negative total it is \<open>(totalVotes + 75000) div 150000\<close>. A total of 75000
  gives 1 bar and a total of 74999 gives none.
\<close>

theorem bars_round_half_away:
  assumes "INT_MIN \<le> t" and "t \<le> INT_MAX"
  shows "bars t = round_half_away_from_zero (of_int t / 150000)
       \<and> (0 \<le> t \<longrightarrow> bars t = (t + 75000) div 150000)
       \<and> bars 75000 = 1 \<and> bars 74999 = 0"
proof -
  have range: "\<bar>t\<bar> \<le> 2 ^ 31" using assms by (simp add: INT_MIN_def INT_MAX_def)
  have main: "bars t = round_half_away_from_zero (of_int t / 150000)"
  proof (cases "0 \<le> t")
    case True
    then show ?thesis
      using bars_nonneg_case(2) [of t] range by (simp add: round_half_away_from_zero_def)
  next
    case False
    then have "bars (- t) = \<lfloor>of_int (- t) / 150000 + 1 / 2 :: rat\<rfloor>"
      using range by (intro bars_nonneg_case(2)) simp_all
    then have "bars t = - \<lfloor>- (of_int t / 150000) + 1 / 2 :: rat\<rfloor>"
      using bars_minus [OF range] by simp
    then show ?thesis
      using False by (simp add: round_half_away_from_zero_def ceiling_def)
  qed
  have pos: "0 \<le> t \<longrightarrow> bars t = (t + 75000) div 150000"
    using bars_nonneg_case(1) [of t] range by simp
  have ex: "bars 75000 = 1" "bars 74999 = 0"
    by code_simp+
  show ?thesis using main pos ex by simp
qed

theorem bars_round_half_away_witness:
  "bars 75000 = round_half_away_from_zero (1 / 2) \<and> round_half_away_from_zero (1 / 2) = 1
   \<and> bars 74999 = round_half_away_from_zero (74999 / 150000)
   \<and> round_half_away_from_zero (74999 / 150000) = 0
   \<and> bars (- 75000) = - 1"
proof -
  have a: "INT_MIN \<le> 75000" "75000 \<le> INT_MAX" "INT_MIN \<le> 74999" "74999 \<le> INT_MAX"
    "INT_MIN \<le> - 75000" "- 75000 \<le> INT_MAX"
    by (simp_all add: INT_MIN_def INT_MAX_def)
  have r: "round_half_away_from_zero (1 / 2) = 1"
    "round_half_away_from_zero (74999 / 150000) = 0"
    "round_half_away_from_zero (- 75000 / 150000) = - 1"
    by code_simp+
  have "bars 75000 = round_half_away_from_zero (1 / 2)"
    using bars_round_half_away [OF a(1,2)] by simp
  moreover have "bars 74999 = round_half_away_from_zero (74999 / 150000)"
    using bars_round_half_away [OF a(3,4)] by simp
  moreover have "bars (- 75000) = - 1"
    using bars_round_half_away [OF a(5,6)] r(3) by simp
  ultimately show ?thesis using r by simp
qed

section \<open>Candidate results: percentages and the best state\<close>

lemma fl_rel_error: "\<bar>fl x - x\<bar> \<le> \<bar>x\<bar> / 2 ^ 53"
proof -
  have pos: "\<bar>fl a - a\<bar> \<le> a / 2 ^ 53" if "0 < a" for a
  proof -
    have "power_int (2::rat) (ilog2 a + (- 53)) = power_int 2 (ilog2 a) * power_int 2 (- 53)"
      by (rule power_int_add) simp
    then have "power_int (2::rat) (ilog2 a - 53) = power_int 2 (ilog2 a) / 2 ^ 53"
      by (simp add: power_int_minus field_simps)
    also have "\<dots> \<le> a / 2 ^ 53"
      using ilog2_bounds [OF that] by (simp add: divide_right_mono)
    finally show ?thesis using fl_error [OF that] by simp
  qed
  consider "x = 0" | "0 < x" | "x < 0" by linarith
  then show ?thesis
  proof cases
    case 1
    then show ?thesis by (simp add: fl_def)
  next
    case 2
    then show ?thesis using pos [of x] by simp
  next
    case 3
    then have "\<bar>fl (- x) - (- x)\<bar> \<le> (- x) / 2 ^ 53" using pos [of "- x"] by simp
    then show ?thesis using 3 by (simp add: fl_minus abs_minus_commute)
  qed
qed

lemma rowPercentage_rounded:
  assumes "0 < tv" and "tv \<le> INT_MAX" and "INT_MIN \<le> cv" and "cv \<le> INT_MAX"
  shows "rowPercentage (st, cv, tv) = fl (100 * of_int cv / of_int tv)"
proof -
  have c: "double_of_int cv = of_int cv" and t: "double_of_int tv = of_int tv"
    unfolding double_of_int_def using assms
    by (intro fl_of_int; simp add: INT_MIN_def INT_MAX_def)+
  have "\<bar>100 * cv\<bar> < 2 ^ 53" using assms by (simp add: INT_MIN_def INT_MAX_def)
  then have "fl (of_int (100 * cv)) = of_int (100 * cv)" by (rule fl_of_int)
  then have "dmul 100 (of_int cv) = 100 * of_int cv" by (simp add: dmul_def)
  then show ?thesis using assms(1) by (simp add: rowPercentage_def c t ddiv_def)
qed

text \<open>
  Claim C4, as stated: whenever some jurisdiction has \<open>totalVotes > 0\<close>, the best
  jurisdiction is the earliest entry of the enumeration that attains the maximum
  percentage. It is not when that maximum is 0: \<^verbatim>\<open>bestPercentage\<close> starts at 0.0 and is
  replaced only by a strictly larger percentage (line 276), so a candidate without a
  vote gets no best state. Below, 100 votes were cast in Ohio, none of them for A; all 51
  percentages are 0, the earliest entry attaining that maximum is Alabama, and the best
  state reported is the empty string.
\<close>

theorem best_state_counterexample:
  "snd (snd (stateResults (showCandidateResults zero_share_votes ''A'') ! 34)) = 100
   \<and> percentages (showCandidateResults zero_share_votes ''A'') = replicate 51 0
   \<and> bestState (showCandidateResults zero_share_votes ''A'') = []
   \<and> STATES ! firstWith 0 (stateResults (showCandidateResults zero_share_votes ''A''))
       = ''ALABAMA''"
  by code_simp

text \<open>
  Claim C4, amended. The percentage of a row is 0.0 when its \<open>totalVotes\<close> is not
  positive, and otherwise \<open>100 * candidateVotes / totalVotes\<close> in double precision: for
  counts in the \<^verbatim>\<open>int\<close> range this is the exact quotient rounded once, within a relative
  error of \<open>2\<^sup>-\<^sup>5\<^sup>3\<close>. The best percentage is the largest of the 51 percentages and of 0.0.
  When it is positive, the best state is the earliest entry of \<open>STATES\<close> whose row
  attains it: every earlier row has a strictly smaller percentage. When no percentage is
  positive, the best percentage is 0.0 and the best state is the empty string.
\<close>

theorem best_state_selection:
  assumes R: "R = showCandidateResults votes candidateInput"
  shows "percentages R = map rowPercentage (stateResults R)
       \<and> length (percentages R) = NUM_STATES
       \<and> (\<forall>st cv tv. tv \<le> 0 \<longrightarrow> rowPercentage (st, cv, tv) = 0)
       \<and> (\<forall>st cv tv. 0 < tv \<and> tv \<le> INT_MAX \<and> INT_MIN \<le> cv \<and> cv \<le> INT_MAX \<longrightarrow>
             rowPercentage (st, cv, tv) = fl (100 * of_int cv / of_int tv)
             \<and> \<bar>rowPercentage (st, cv, tv) - 100 * of_int cv / of_int tv\<bar>
                 \<le> \<bar>100 * of_int cv / of_int tv\<bar> / 2 ^ 53)
       \<and> bestPercentage R = maxPercentage (stateResults R)
       \<and> 0 \<le> bestPercentage R
       \<and> (\<forall>i < NUM_STATES. percentages R ! i \<le> bestPercentage R)
       \<and> (0 < bestPercentage R \<longrightarrow>
            firstWith (bestPercentage R) (stateResults R) < NUM_STATES
            \<and> bestState R = STATES ! firstWith (bestPercentage R) (stateResults R)
            \<and> percentages R ! firstWith (bestPercentage R) (stateResults R) = bestPercentage R
            \<and> (\<forall>j < firstWith (bestPercentage R) (stateResults R).
                  percentages R ! j < bestPercentage R))
       \<and> (bestPercentage R = 0 \<longrightarrow> bestState R = [])"
proof -
  let ?rows = "stateResults R"
  let ?m = "bestPercentage R"
  have pc: "percentages R = map rowPercentage ?rows"
    by (simp add: R showCandidateResults_def Let_def)
  have len: "length ?rows = NUM_STATES"
    unfolding R by (rule length_stateResults)
  have lenp: "length (percentages R) = NUM_STATES"
    using len by (simp add: pc)
  have z: "\<forall>st cv tv. tv \<le> 0 \<longrightarrow> rowPercentage (st, cv, tv) = 0"
    by (simp add: rowPercentage_def)
  have fp: "\<forall>st cv tv. 0 < tv \<and> tv \<le> INT_MAX \<and> INT_MIN \<le> cv \<and> cv \<le> INT_MAX \<longrightarrow>
             rowPercentage (st, cv, tv) = fl (100 * of_int cv / of_int tv)
             \<and> \<bar>rowPercentage (st, cv, tv) - 100 * of_int cv / of_int tv\<bar>
                 \<le> \<bar>100 * of_int cv / of_int tv\<bar> / 2 ^ 53"
  proof (intro allI impI)
    fix st cv tv
    assume a: "0 < tv \<and> tv \<le> INT_MAX \<and> INT_MIN \<le> cv \<and> cv \<le> INT_MAX"
    then have eq: "rowPercentage (st, cv, tv) = fl (100 * of_int cv / of_int tv)"
      by (intro rowPercentage_rounded) blast+
    have "\<bar>fl (100 * of_int cv / of_int tv) - 100 * of_int cv / of_int tv\<bar>
          \<le> \<bar>100 * of_int cv / of_int tv\<bar> / 2 ^ 53"
      by (rule fl_rel_error)
    then show "rowPercentage (st, cv, tv) = fl (100 * of_int cv / of_int tv)
             \<and> \<bar>rowPercentage (st, cv, tv) - 100 * of_int cv / of_int tv\<bar>
                 \<le> \<bar>100 * of_int cv / of_int tv\<bar> / 2 ^ 53"
      by (simp only: eq)
  qed
  have bp: "?m = maxPercentage ?rows"
    and bs: "bestState R = (if 0 < ?m then fst (?rows ! firstWith ?m ?rows) else [])"
    using showCandidateResults_best [of votes candidateInput] by (simp_all add: R)
  have nn: "0 \<le> ?m"
    unfolding bp by (rule maxPercentage_nonneg)
  have upper: "\<forall>i < NUM_STATES. percentages R ! i \<le> ?m"
    using len by (simp add: pc bp maxPercentage_upper)
  have pos: "0 < ?m \<longrightarrow>
            firstWith ?m ?rows < NUM_STATES
            \<and> bestState R = STATES ! firstWith ?m ?rows
            \<and> percentages R ! firstWith ?m ?rows = ?m
            \<and> (\<forall>j < firstWith ?m ?rows. percentages R ! j < ?m)"
  proof
    assume m: "0 < ?m"
    then have "?m \<in> rowPercentage ` set ?rows"
      using maxPercentage_cases [of ?rows] by (auto simp: bp)
    note fw = firstWith_props [OF this]
    have lt: "firstWith ?m ?rows < NUM_STATES" using fw len by simp
    have "\<forall>j < firstWith ?m ?rows. percentages R ! j < ?m"
    proof (intro allI impI)
      fix j assume j: "j < firstWith ?m ?rows"
      then have jl: "j < length ?rows" using fw by simp
      have "rowPercentage (?rows ! j) \<le> ?m"
        using jl by (simp add: bp maxPercentage_upper)
      moreover have "rowPercentage (?rows ! j) \<noteq> ?m" using fw j by simp
      ultimately show "percentages R ! j < ?m" using jl by (simp add: pc)
    qed
    moreover have "bestState R = STATES ! firstWith ?m ?rows"
      using bs m lt fst_stateResults [of "firstWith ?m ?rows" votes candidateInput]
      by (simp add: R)
    moreover have "percentages R ! firstWith ?m ?rows = ?m"
      using fw by (simp add: pc)
    ultimately show "firstWith ?m ?rows < NUM_STATES
            \<and> bestState R = STATES ! firstWith ?m ?rows
            \<and> percentages R ! firstWith ?m ?rows = ?m
            \<and> (\<forall>j < firstWith ?m ?rows. percentages R ! j < ?m)"
      using lt by simp
  qed
  have zero: "?m = 0 \<longrightarrow> bestState R = []" using bs by simp
  from pc lenp z fp bp nn upper pos zero show ?thesis by blast
qed

theorem best_state_selection_witness:
  "bestState (showCandidateResults ohio_votes ''a'') = ''OHIO''
   \<and> firstWith (bestPercentage (showCandidateResults ohio_votes ''a''))
        (stateResults (showCandidateResults ohio_votes ''a'')) = 34
   \<and> bestPercentage (showCandidateResults ohio_votes ''a'') = 5864062014805333 / 2 ^ 46
   \<and> fl (100 * 150 / 180) = 5864062014805333 / 2 ^ 46"
proof -
  let ?R = "showCandidateResults ohio_votes ''a''"
  have v: "bestPercentage ?R = 5864062014805333 / 2 ^ 46"
    by code_simp
  then have p: "0 < bestPercentage ?R" by simp
  have i: "firstWith (bestPercentage ?R) (stateResults ?R) = 34"
    by code_simp
  have s: "STATES ! 34 = ''OHIO''"
    by code_simp
  have f: "fl (100 * 150 / 180) = 5864062014805333 / 2 ^ 46"
    by code_simp
  have "bestState ?R = STATES ! firstWith (bestPercentage ?R) (stateResults ?R)"
    using best_state_selection [OF refl, of ohio_votes "''a''"] p by blast
  then have b: "bestState ?R = ''OHIO''" by (simp only: i s)
  show ?thesis by (rule conjI [OF b conjI [OF i conjI [OF v f]]])
qed

end
